theory Spec2Isabelle
  imports Complex_Main
begin

section \<open>Data model (types.ts)\<close>

text \<open>
  JavaScript strings are modelled as \<^typ>\<open>string\<close>, holding the UTF-8 bytes of the text;
  the two needles the runner searches for and the quote character of the export are ASCII.
  An optional property (\<open>emotionType?: string\<close>) is an \<^typ>\<open>'a option\<close>, \<open>undefined\<close> being
  \<^term>\<open>None\<close>. A JavaScript number that comes out of \<open>JSON.parse\<close> is modelled as a
  \<^typ>\<open>real\<close>: JSON has no integer type, and nothing in the code restricts the value.
\<close>

datatype EmotionStatus = IDLE | PROCESSING | COMPLETED | FAILED

text \<open>The browser's \<open>File\<close> object, as far as the application reads it.\<close>

record File =
  fname :: string
  fsize :: nat
  ftype :: string

record AudioFile =
  id' :: string
  file' :: File
  name :: string
  size' :: string
  status :: EmotionStatus
  emotionType :: "string option"
  emotionLevel :: "real option"
  voiceIdentity :: "string option"
  reasoning :: "string option"
  error :: "string option"

text \<open>
  What \<open>analyzeAudioEmotion\<close> returns: the value of \<open>JSON.parse\<close>, cast to
  \<open>AnalysisResult\<close> without a look at it (geminiService.ts, line 55). The value is taken to
  be an object; each of the four properties may be missing from it (a property that is
  \<open>null\<close> reads as a missing one wherever the code looks at it), and one that is there is
  taken to have the type the interface declares.
\<close>

record AnalysisResult =
  result_emotionType :: "string option"
  result_emotionLevel :: "real option"
  result_voiceIdentity :: "string option"
  result_reasoning :: "string option"

section \<open>Thrown values and their classification\<close>

text \<open>
  What the \<open>catch\<close> clause of \<open>processBatch\<close> receives (\<open>error: any\<close>). \<open>Nullish\<close> is
  \<open>undefined\<close> or \<open>null\<close>; any other value is \<open>Thrown m\<close> with \<open>m\<close> what reading its
  \<open>message\<close> gives: nothing (\<open>undefined\<close> or \<open>null\<close>: an event passed to \<open>reject\<close>, a thrown
  string), a string (an \<open>Error\<close> of the SDK, of \<open>JSON.parse\<close>, of a property access), or a
  value that is neither, taken to have no \<open>includes\<close> method (a number, a boolean).
\<close>

datatype js_message = NoMessage | Text string | NotText

datatype js_error = Nullish | Thrown js_message

fun starts_with :: "string \<Rightarrow> string \<Rightarrow> bool" where
  "starts_with s [] = True"
| "starts_with [] (c # n) = False"
| "starts_with (a # s) (c # n) = (a = c \<and> starts_with s n)"

text \<open>\<open>String.prototype.includes\<close>: the needle occurs at some position of the string.\<close>

fun includes' :: "string \<Rightarrow> string \<Rightarrow> bool" where
  "includes' [] n = (n = [])"
| "includes' (a # s) n = (starts_with (a # s) n \<or> includes' s n)"

text \<open>
  \<open>error.message?.includes(n)\<close> in a condition. \<open>None\<close> is a \<open>TypeError\<close>: reading
  \<open>message\<close> off \<open>undefined\<close> or \<open>null\<close> throws, and so does calling \<open>includes\<close> on a message
  that has no such method. A message that is \<open>undefined\<close> gives \<open>undefined\<close>, which is falsy.
\<close>

fun message_includes :: "js_error \<Rightarrow> string \<Rightarrow> bool option" where
  "message_includes Nullish n = None"
| "message_includes (Thrown NoMessage) n = Some False"
| "message_includes (Thrown (Text m)) n = Some (includes' m n)"
| "message_includes (Thrown NotText) n = None"

text \<open>
  The condition of line 120, which decides whether the attempt is retried; \<open>||\<close> evaluates
  its second operand only when the first is falsy.
\<close>

definition isRateLimit :: "js_error \<Rightarrow> bool option" where
  "isRateLimit e =
     (case message_includes e ''429'' of
        None \<Rightarrow> None
      | Some found \<Rightarrow> if found then Some True else message_includes e ''RESOURCE_EXHAUSTED'')"

text \<open>The two labels of line 133, as UTF-8: "frequency exceeded" and "analysis failed".\<close>

definition label_rate_limit :: string where
  "label_rate_limit = [CHR 0xE9, CHR 0xA2, CHR 0x91, CHR 0xE7, CHR 0x8E, CHR 0x87,
     CHR 0xE8, CHR 0xB6, CHR 0x85, CHR 0xE9, CHR 0x99, CHR 0x90]"

definition label_analysis_failed :: string where
  "label_analysis_failed = [CHR 0xE5, CHR 0x88, CHR 0x86, CHR 0xE6, CHR 0x9E, CHR 0x90,
     CHR 0xE5, CHR 0xA4, CHR 0xB1, CHR 0xE8, CHR 0xB4, CHR 0xA5]"

text \<open>
  The conditional of line 133. It is reached only after line 120 has been evaluated without
  a throw, on the same \<open>error\<close>, so it does not throw.
\<close>

definition error_label :: "js_error \<Rightarrow> string" where
  "error_label e =
     (if message_includes e ''429'' = Some True then label_rate_limit else label_analysis_failed)"

section \<open>Application state and its observable effects\<close>

text \<open>
  Every effectful call of \<open>processBatch\<close>, in program order. The state updates carry the
  identifier they address; the two awaited collaborators carry the identifier of the job
  whose file they are given.
\<close>

datatype event =
    E_processing string
  | E_fileToBase64 string
  | E_analyzeAudioEmotion string
  | E_completed string AnalysisResult
  | E_failed string string
  | E_sleep nat

text \<open>
  The component's state: the two \<open>useState\<close> cells, and three pieces of bookkeeping of the
  model. \<open>tick\<close> counts the suspension points the run has passed: it goes up by one each
  time the run is suspended at an \<open>await\<close> and resumed. \<open>trace\<close> lists the events so far,
  each with the value of \<open>tick\<close> at which it happened. \<open>renders\<close> lists every value the pair
  of cells has taken (each state update appends one).
\<close>

record app =
  files :: "AudioFile list"
  isProcessing :: bool
  tick :: nat
  trace :: "(nat \<times> event) list"
  renders :: "(AudioFile list \<times> bool) list"

definition setFiles :: "(AudioFile list \<Rightarrow> AudioFile list) \<Rightarrow> app \<Rightarrow> app" where
  "setFiles g s = s\<lparr>files := g (files s), renders := renders s @ [(g (files s), isProcessing s)]\<rparr>"

definition setIsProcessing :: "bool \<Rightarrow> app \<Rightarrow> app" where
  "setIsProcessing b s = s\<lparr>isProcessing := b, renders := renders s @ [(files s, b)]\<rparr>"

definition emit :: "event \<Rightarrow> app \<Rightarrow> app" where
  "emit e s = s\<lparr>trace := trace s @ [(tick s, e)]\<rparr>"

section \<open>Queue operations of the user\<close>

text \<open>
  \<open>handleFileChange\<close>: \<open>picked\<close> is \<open>e.target.files\<close> (\<open>None\<close> for \<open>null\<close>), each file paired
  with the identifier \<open>Math.random\<close> yields for it. \<open>formatFileSize\<close> is imported from a
  module outside the sources and taken as a parameter.
\<close>

definition new_job :: "(nat \<Rightarrow> string) \<Rightarrow> string \<times> File \<Rightarrow> AudioFile" where
  "new_job formatFileSize p =
     \<lparr>id' = fst p, file' = snd p, name = fname (snd p), size' = formatFileSize (fsize (snd p)),
      status = IDLE, emotionType = None, emotionLevel = None, voiceIdentity = None,
      reasoning = None, error = None\<rparr>"

definition handleFileChange ::
  "(nat \<Rightarrow> string) \<Rightarrow> (string \<times> File) list option \<Rightarrow> app \<Rightarrow> app" where
  "handleFileChange formatFileSize picked s =
     (case picked of
        None \<Rightarrow> s
      | Some fs \<Rightarrow> setFiles (\<lambda>prev. prev @ map (new_job formatFileSize) fs) s)"

definition removeFile :: "string \<Rightarrow> app \<Rightarrow> app" where
  "removeFile x s = setFiles (filter (\<lambda>f. id' f \<noteq> x)) s"

text \<open>\<open>clearAll\<close>; \<open>confirmed\<close> is the answer of \<open>window.confirm\<close>.\<close>

definition clearAll :: "bool \<Rightarrow> app \<Rightarrow> app" where
  "clearAll confirmed s = (if confirmed then setFiles (\<lambda>prev. []) s else s)"

text \<open>The button of \<open>clearAll\<close> is disabled on an empty queue and while a run is active.\<close>

definition click_clearAll :: "bool \<Rightarrow> app \<Rightarrow> app" where
  "click_clearAll confirmed s =
     (if files s = [] \<or> isProcessing s then s else clearAll confirmed s)"

datatype user_action =
    AddFiles "(string \<times> File) list option"
  | RemoveFile string
  | ClickClearAll bool

section \<open>The environment of a run\<close>

text \<open>
  One attempt of the \<open>try\<close> block awaits \<open>fileToBase64\<close> and then \<open>analyzeAudioEmotion\<close>.
  \<open>fileToBase64\<close> is imported from a module outside the sources, and
  \<open>analyzeAudioEmotion\<close> returns what the remote service answers: it trims the text of the
  response, hands it to \<open>JSON.parse\<close> and casts the value to \<open>AnalysisResult\<close> without
  looking at it. So what the two calls of an attempt do is a parameter of the run: the
  encoder throws, or it returns and the inference call throws (the request failed, or the
  response has no text or does not parse), or it returns and the inference call returns a
  result.
\<close>

datatype attempt_outcome =
    EncodeThrows js_error
  | InferThrows js_error
  | InferReturns AnalysisResult

text \<open>
  \<open>outcome i k\<close> is what the attempt made with \<open>retryCount = k\<close> for the job at index \<open>i\<close> of
  the working set meets. \<open>user t\<close> lists what the user does to the queue while the run is
  suspended at the suspension point it reaches with \<open>tick = t\<close>.
\<close>

record env =
  outcome :: "nat \<Rightarrow> nat \<Rightarrow> attempt_outcome"
  user :: "nat \<Rightarrow> user_action list"
  formatFileSize :: "nat \<Rightarrow> string"

fun apply_action :: "env \<Rightarrow> user_action \<Rightarrow> app \<Rightarrow> app" where
  "apply_action en (AddFiles picked) s = handleFileChange (formatFileSize en) picked s"
| "apply_action en (RemoveFile x) s = removeFile x s"
| "apply_action en (ClickClearAll confirmed) s = click_clearAll confirmed s"

text \<open>
  A suspension point: the run is suspended, the user's actions of this tick take place, the
  run resumes.
\<close>

definition await :: "env \<Rightarrow> app \<Rightarrow> app" where
  "await en s = (fold (apply_action en) (user en (tick s)) s)\<lparr>tick := Suc (tick s)\<rparr>"

text \<open>\<open>await sleep(ms)\<close>: the timer is set, and the run is suspended until it fires.\<close>

definition sleep :: "env \<Rightarrow> nat \<Rightarrow> app \<Rightarrow> app" where
  "sleep en ms s = await en (emit (E_sleep ms) s)"

section \<open>processBatch\<close>

text \<open>
  \<open>processBatch\<close> is an \<open>async\<close> function: the promise it returns is fulfilled when the body
  runs to its end, and rejected when an exception leaves the body. Either way the state
  updates made so far stay.
\<close>

datatype run = is_returned: Returns (state_of: app) | Rejects (state_of: app)

definition maxRetries :: nat where
  "maxRetries = 2"

definition mark_processing :: "AudioFile \<Rightarrow> AudioFile" where
  "mark_processing f = f\<lparr>status := PROCESSING, error := None\<rparr>"

definition mark_completed :: "AnalysisResult \<Rightarrow> AudioFile \<Rightarrow> AudioFile" where
  "mark_completed r f =
     f\<lparr>status := COMPLETED,
       emotionType := result_emotionType r,
       emotionLevel := result_emotionLevel r,
       voiceIdentity := result_voiceIdentity r,
       reasoning := result_reasoning r\<rparr>"

definition mark_failed :: "js_error \<Rightarrow> AudioFile \<Rightarrow> AudioFile" where
  "mark_failed e f = f\<lparr>status := FAILED, error := Some (error_label e)\<rparr>"

text \<open>\<open>prev.map(f => f.id === audioFile.id ? g f : f)\<close>\<close>

definition update_job :: "string \<Rightarrow> (AudioFile \<Rightarrow> AudioFile) \<Rightarrow> AudioFile list \<Rightarrow> AudioFile list" where
  "update_job x g prev = map (\<lambda>f. if id' f = x then g f else f) prev"

text \<open>Lines 130 to 135: the job is marked Failed and the loop is left.\<close>

definition give_up :: "AudioFile \<Rightarrow> js_error \<Rightarrow> app \<Rightarrow> app" where
  "give_up audioFile e s =
     emit (E_failed (id' audioFile) (error_label e))
       (setFiles (update_job (id' audioFile) (mark_failed e)) s)"

text \<open>
  The \<open>while\<close> loop of lines 102 to 137, entered with \<open>success = false\<close>: it is left on
  success, on \<open>break\<close>, when \<open>retryCount\<close> exceeds \<open>maxRetries\<close>, or by an exception. \<open>s1\<close> is
  the state when the awaited \<open>fileToBase64\<close> settles; \<open>analyzeAudioEmotion\<close> is called, and
  awaited, only when it has returned. \<open>catch\<close> is the \<open>catch\<close> clause, entered in the state
  the \<open>throw\<close> happens in. When the condition of line 120 throws, the exception is thrown
  from inside the \<open>catch\<close> clause: no handler encloses it, it leaves both loops and
  \<open>processBatch\<close>. Otherwise \<open>retryCount\<close> is incremented on a rate-limit error, and the loop
  continues after the backoff if the new value does not exceed \<open>maxRetries\<close>.
\<close>

function attempt_loop :: "env \<Rightarrow> nat \<Rightarrow> AudioFile \<Rightarrow> nat \<Rightarrow> app \<Rightarrow> run" where
  "attempt_loop en i audioFile retryCount s =
     (if \<not> retryCount \<le> maxRetries then Returns s
      else
        let s1 = await en (emit (E_fileToBase64 (id' audioFile)) s);
            catch = (\<lambda>e s'.
              case isRateLimit e of
                None \<Rightarrow> Rejects s'
              | Some limited \<Rightarrow>
                  if limited \<and> retryCount + 1 \<le> maxRetries
                  then attempt_loop en i audioFile (retryCount + 1)
                         (sleep en ((retryCount + 1) * 5000) s')
                  else Returns (give_up audioFile e s'))
        in (case outcome en i retryCount of
              EncodeThrows e \<Rightarrow> catch e s1
            | InferThrows e \<Rightarrow>
                catch e (await en (emit (E_analyzeAudioEmotion (id' audioFile)) s1))
            | InferReturns result \<Rightarrow>
                Returns
                  (emit (E_completed (id' audioFile) result)
                     (setFiles (update_job (id' audioFile) (mark_completed result))
                        (await en (emit (E_analyzeAudioEmotion (id' audioFile)) s1))))))"
  by pat_completeness auto
termination
  by (relation "measure (\<lambda>(en, i, audioFile, retryCount, s). 3 - retryCount)")
     (auto simp: maxRetries_def)

text \<open>The body of the \<open>for\<close> loop up to line 137.\<close>

definition process_job :: "env \<Rightarrow> nat \<Rightarrow> AudioFile \<Rightarrow> app \<Rightarrow> run" where
  "process_job en i audioFile s =
     attempt_loop en i audioFile 0
       (emit (E_processing (id' audioFile))
          (setFiles (update_job (id' audioFile) mark_processing) s))"

text \<open>The \<open>for\<close> loop: an exception that leaves the body of a job leaves the loop.\<close>

function run_loop :: "env \<Rightarrow> AudioFile list \<Rightarrow> nat \<Rightarrow> app \<Rightarrow> run" where
  "run_loop en pendingFiles i s =
     (if i < length pendingFiles then
        (case process_job en i (pendingFiles ! i) s of
           Rejects s1 \<Rightarrow> Rejects s1
         | Returns s1 \<Rightarrow>
             run_loop en pendingFiles (i + 1)
               (if int i < int (length pendingFiles) - 1 then sleep en 1500 s1 else s1))
      else Returns s)"
  by pat_completeness auto
termination
  by (relation "measure (\<lambda>(en, pendingFiles, i, s). length pendingFiles - i)") auto

definition is_pending :: "AudioFile \<Rightarrow> bool" where
  "is_pending f = (status f = IDLE \<or> status f = FAILED)"

text \<open>
  Lines 88 to 145. Line 144 is reached only when the loop is left without an exception.
\<close>

definition processBatch :: "env \<Rightarrow> app \<Rightarrow> run" where
  "processBatch en s =
     (if isProcessing s then Returns s
      else
        (case run_loop en (filter is_pending (files s)) 0 (setIsProcessing True s) of
           Rejects s' \<Rightarrow> Rejects s'
         | Returns s' \<Rightarrow> Returns (setIsProcessing False s')))"

section \<open>exportResults\<close>

definition dq :: char where
  "dq = CHR 0x22"

text \<open>\<open>s.replace(/"/g, '""')\<close>\<close>

definition double_quotes :: "string \<Rightarrow> string" where
  "double_quotes s = concat (map (\<lambda>c. if c = dq then [dq, dq] else [c]) s)"

text \<open>\<open>v || ''\<close> inside a template literal: \<open>undefined\<close>, the empty string and \<open>0\<close> are falsy.\<close>

definition string_or_empty :: "string option \<Rightarrow> string" where
  "string_or_empty v = (case v of None \<Rightarrow> [] | Some s \<Rightarrow> s)"

text \<open>
  The text a template literal prints for a number (\<open>Number::toString\<close>) is a parameter,
  \<open>number_text\<close>.
\<close>

definition number_or_empty :: "(real \<Rightarrow> string) \<Rightarrow> real option \<Rightarrow> string" where
  "number_or_empty number_text v =
     (case v of None \<Rightarrow> [] | Some n \<Rightarrow> if n = 0 then [] else number_text n)"

definition quoted :: "string \<Rightarrow> string" where
  "quoted s = dq # s @ [dq]"

text \<open>The template literal of line 150.\<close>

definition export_row :: "(real \<Rightarrow> string) \<Rightarrow> AudioFile \<Rightarrow> string" where
  "export_row number_text f =
     quoted (name f) @ '','' @
     quoted (string_or_empty (emotionType f)) @ '','' @
     quoted (number_or_empty number_text (emotionLevel f)) @ '','' @
     quoted (string_or_empty (voiceIdentity f)) @ '','' @
     quoted (string_or_empty (map_option double_quotes (reasoning f)))"

text \<open>\<open>rows.join("\n")\<close>\<close>

fun join_lines :: "string list \<Rightarrow> string" where
  "join_lines [] = []"
| "join_lines [r] = r"
| "join_lines (r # rs) = r @ [CHR 0x0A] @ join_lines rs"

text \<open>The header line of line 148 and the byte order mark, as UTF-8.\<close>

definition header :: string where
  "header = [CHR 0xE6, CHR 0x96, CHR 0x87, CHR 0xE4, CHR 0xBB, CHR 0xB6, CHR 0xE5, CHR 0x90,
     CHR 0x8D, CHR 0x2C, CHR 0xE6, CHR 0x83, CHR 0x85, CHR 0xE7, CHR 0xBB, CHR 0xAA, CHR 0x2C,
     CHR 0xE5, CHR 0xBC, CHR 0xBA, CHR 0xE5, CHR 0xBA, CHR 0xA6, CHR 0x28, CHR 0x31, CHR 0x2D,
     CHR 0x31, CHR 0x30, CHR 0x29, CHR 0x2C, CHR 0xE8, CHR 0xA7, CHR 0x92, CHR 0xE8, CHR 0x89,
     CHR 0xB2, CHR 0xE6, CHR 0xA0, CHR 0x87, CHR 0xE7, CHR 0xAD, CHR 0xBE, CHR 0x2C, CHR 0x41,
     CHR 0x49, CHR 0xE6, CHR 0xB4, CHR 0x9E, CHR 0xE5, CHR 0xAF, CHR 0x9F, CHR 0x0A]"

definition byte_order_mark :: string where
  "byte_order_mark = [CHR 0xEF, CHR 0xBB, CHR 0xBF]"

text \<open>The text \<open>exportResults\<close> puts into the downloaded file.\<close>

definition exportResults :: "(real \<Rightarrow> string) \<Rightarrow> app \<Rightarrow> string" where
  "exportResults number_text s =
     byte_order_mark @ header @ join_lines (map (export_row number_text) (files s))"

section \<open>Reading a trace\<close>

text \<open>
  The run is suspended once at each call of a collaborator and at each sleep, and at no
  state update. \<open>stamp t es\<close> pairs the events \<open>es\<close> of a run that starts with \<open>tick = t\<close> with
  the ticks at which they happen; \<open>logged s es s'\<close> says that from \<open>s\<close> to \<open>s'\<close> exactly the
  events \<open>es\<close> were added to the trace, each at the tick it happens at, and that \<open>tick\<close> went
  up by the number of suspensions among them.
\<close>

fun suspends :: "event \<Rightarrow> nat" where
  "suspends (E_fileToBase64 x) = 1"
| "suspends (E_analyzeAudioEmotion x) = 1"
| "suspends (E_sleep ms) = 1"
| "suspends (E_processing x) = 0"
| "suspends (E_completed x r) = 0"
| "suspends (E_failed x l) = 0"

fun stamp :: "nat \<Rightarrow> event list \<Rightarrow> (nat \<times> event) list" where
  "stamp t [] = []"
| "stamp t (e # es) = (t, e) # stamp (t + suspends e) es"

definition suspensions :: "event list \<Rightarrow> nat" where
  "suspensions es = sum_list (map suspends es)"

definition logged :: "app \<Rightarrow> event list \<Rightarrow> app \<Rightarrow> bool" where
  "logged s es s' = (trace s' = trace s @ stamp (tick s) es \<and> tick s' = tick s + suspensions es)"

text \<open>
  Observations on the outcome of one attempt, used to state what a run does: the value it
  throws, if any; the collaborator calls the attempt makes (the inference client is not
  called when the encoder throws); whether its failure satisfies the retry condition of
  line 120; whether that condition itself throws on it, so that the exception escapes; the
  state update that ends the retry loop when this attempt is the last one (none when the
  exception escapes); and the status the job is left in.
\<close>

fun thrown :: "attempt_outcome \<Rightarrow> js_error option" where
  "thrown (EncodeThrows e) = Some e"
| "thrown (InferThrows e) = Some e"
| "thrown (InferReturns r) = None"

fun calls :: "string \<Rightarrow> attempt_outcome \<Rightarrow> event list" where
  "calls x (EncodeThrows e) = [E_fileToBase64 x]"
| "calls x (InferThrows e) = [E_fileToBase64 x, E_analyzeAudioEmotion x]"
| "calls x (InferReturns r) = [E_fileToBase64 x, E_analyzeAudioEmotion x]"

definition rate_limited :: "attempt_outcome \<Rightarrow> bool" where
  "rate_limited oc = (case thrown oc of None \<Rightarrow> False | Some e \<Rightarrow> isRateLimit e = Some True)"

definition escapes :: "attempt_outcome \<Rightarrow> bool" where
  "escapes oc = (case thrown oc of None \<Rightarrow> False | Some e \<Rightarrow> isRateLimit e = None)"

fun verdict :: "string \<Rightarrow> attempt_outcome \<Rightarrow> event list" where
  "verdict x (InferReturns r) = [E_completed x r]"
| "verdict x oc =
     (if escapes oc then [] else [E_failed x (error_label (the (thrown oc)))])"

fun final_status :: "attempt_outcome \<Rightarrow> EmotionStatus" where
  "final_status (InferReturns r) = COMPLETED"
| "final_status oc = (if escapes oc then PROCESSING else FAILED)"

text \<open>
  The ways the loop is left after its last attempt: after the update of line 107
  (success), through \<open>give_up\<close> (lines 130 to 135), or by the exception of line 120.
\<close>

fun finish :: "AudioFile \<Rightarrow> attempt_outcome \<Rightarrow> app \<Rightarrow> run" where
  "finish audioFile (InferReturns r) s =
     Returns (emit (E_completed (id' audioFile) r)
                (setFiles (update_job (id' audioFile) (mark_completed r)) s))"
| "finish audioFile oc s =
     (if escapes oc then Rejects s else Returns (give_up audioFile (the (thrown oc)) s))"

text \<open>
  The value of \<open>retryCount\<close> at the last attempt of the job at index \<open>i\<close>, for a loop that is
  at \<open>retryCount = k\<close>: the loop goes on while the attempt is rate-limited and \<open>maxRetries\<close>
  is not reached.
\<close>

function last_from :: "env \<Rightarrow> nat \<Rightarrow> nat \<Rightarrow> nat" where
  "last_from en i k =
     (if k < maxRetries \<and> rate_limited (outcome en i k) then last_from en i (k + 1) else k)"
  by pat_completeness auto
termination
  by (relation "measure (\<lambda>(en, i, k). maxRetries - k)") auto

definition last_attempt :: "env \<Rightarrow> nat \<Rightarrow> nat" where
  "last_attempt en i = last_from en i 0"

text \<open>
  The events of the attempts from \<open>retryCount = k\<close> on, up to the calls of the last one:
  each attempt before the last with its calls and its backoff.
\<close>

definition attempts :: "env \<Rightarrow> nat \<Rightarrow> string \<Rightarrow> nat \<Rightarrow> event list" where
  "attempts en i x k =
     concat (map (\<lambda>j. calls x (outcome en i j) @ [E_sleep ((j + 1) * 5000)])
               [k..<last_from en i k]) @
     calls x (outcome en i (last_from en i k))"

text \<open>
  The events \<open>process_job\<close> appends, and whether it is left by an exception, do not depend on
  the state it starts from; they are read off a run of it from a state with an empty trace.
\<close>

definition blank :: app where
  "blank = \<lparr>files = [], isProcessing = True, tick = 0, trace = [], renders = []\<rparr>"

definition job_events :: "env \<Rightarrow> nat \<Rightarrow> AudioFile \<Rightarrow> event list" where
  "job_events en i audioFile = map snd (trace (state_of (process_job en i audioFile blank)))"

definition job_rejects :: "env \<Rightarrow> nat \<Rightarrow> AudioFile \<Rightarrow> bool" where
  "job_rejects en i audioFile = (\<not> is_returned (process_job en i audioFile blank))"

text \<open>The events a call of \<open>processBatch\<close> appends to the trace.\<close>

definition run_events :: "env \<Rightarrow> app \<Rightarrow> event list" where
  "run_events en s =
     map snd (drop (length (trace s)) (trace (state_of (processBatch en s))))"

text \<open>The working set of a run that starts in \<open>s\<close>, and its identifiers.\<close>

definition working_set :: "app \<Rightarrow> AudioFile list" where
  "working_set s = filter is_pending (files s)"

definition working_ids :: "app \<Rightarrow> string set" where
  "working_ids s = id' ` set (working_set s)"

text \<open>The pause after the job at index \<open>j\<close> of a working set of \<open>n\<close> jobs.\<close>

definition gap :: "nat \<Rightarrow> nat \<Rightarrow> event list" where
  "gap n j = (if j + 1 < n then [E_sleep 1500] else [])"

text \<open>The identifier an event is about; a sleep is about none.\<close>

fun subject :: "event \<Rightarrow> string option" where
  "subject (E_processing x) = Some x"
| "subject (E_fileToBase64 x) = Some x"
| "subject (E_analyzeAudioEmotion x) = Some x"
| "subject (E_completed x r) = Some x"
| "subject (E_failed x l) = Some x"
| "subject (E_sleep ms) = None"

fun is_start :: "event \<Rightarrow> bool" where
  "is_start (E_processing x) = True"
| "is_start e = False"

fun is_terminal :: "event \<Rightarrow> bool" where
  "is_terminal (E_completed x r) = True"
| "is_terminal (E_failed x l) = True"
| "is_terminal e = False"

text \<open>
  No attempt of the run throws a value on which the condition of line 120 throws: every
  thrown value is an object (or a primitive) whose \<open>message\<close> is a string or absent.
\<close>

definition classifiable :: "env \<Rightarrow> bool" where
  "classifiable en = (\<forall>i k. \<not> escapes (outcome en i k))"

section \<open>Invariants of the queue\<close>

text \<open>
  \<open>ends Q J r\<close>: the run \<open>r\<close> has returned in a state that satisfies \<open>Q\<close>, or was left by an
  exception in a state that satisfies \<open>J\<close>. \<open>holds P H s\<close>: every job of the current queue
  satisfies \<open>P\<close>, and every job of every queue value rendered so far satisfies \<open>H\<close>.
  \<open>has y R s\<close>: a run is active and the queue has a job with identifier \<open>y\<close> that satisfies
  \<open>R\<close>.
\<close>

definition ends :: "(app \<Rightarrow> bool) \<Rightarrow> (app \<Rightarrow> bool) \<Rightarrow> run \<Rightarrow> bool" where
  "ends Q J r = (case r of Returns s \<Rightarrow> Q s | Rejects s \<Rightarrow> J s)"

definition holds :: "(AudioFile \<Rightarrow> bool) \<Rightarrow> (AudioFile \<Rightarrow> bool) \<Rightarrow> app \<Rightarrow> bool" where
  "holds P H s = ((\<forall>f\<in>set (files s). P f) \<and> (\<forall>r\<in>set (renders s). \<forall>f\<in>set (fst r). H f))"

definition has :: "string \<Rightarrow> (AudioFile \<Rightarrow> bool) \<Rightarrow> app \<Rightarrow> bool" where
  "has y R s = (isProcessing s \<and> (\<exists>f\<in>set (files s). id' f = y \<and> R f))"

section \<open>Properties of a job\<close>

text \<open>
  \<open>same_job p f\<close>: \<open>f\<close> is the job \<open>p\<close>, as far as the fields go that no update writes.
  \<open>recorded oc f\<close>: \<open>f\<close> carries what the terminal update after a last attempt with outcome
  \<open>oc\<close> writes, the four result fields exactly as the result has them.
\<close>

definition same_job :: "AudioFile \<Rightarrow> AudioFile \<Rightarrow> bool" where
  "same_job p f = (id' f = id' p \<and> file' f = file' p \<and> name f = name p \<and> size' f = size' p)"

fun recorded :: "attempt_outcome \<Rightarrow> AudioFile \<Rightarrow> bool" where
  "recorded (InferReturns r) f =
     (status f = COMPLETED \<and> emotionType f = result_emotionType r \<and>
      emotionLevel f = result_emotionLevel r \<and> voiceIdentity f = result_voiceIdentity r \<and>
      reasoning f = result_reasoning r)"
| "recorded oc f = (status f = FAILED \<and> error f = Some (error_label (the (thrown oc))))"

definition has_results :: "AudioFile \<Rightarrow> bool" where
  "has_results f = (emotionType f \<noteq> None \<and> emotionLevel f \<noteq> None \<and>
                    voiceIdentity f \<noteq> None \<and> reasoning f \<noteq> None)"

definition no_results :: "AudioFile \<Rightarrow> bool" where
  "no_results f = (emotionType f = None \<and> emotionLevel f = None \<and>
                   voiceIdentity f = None \<and> reasoning f = None)"

text \<open>A result with all four fields; an intensity that is an integer from 1 to 10.\<close>

definition complete :: "AnalysisResult \<Rightarrow> bool" where
  "complete r = (result_emotionType r \<noteq> None \<and> result_emotionLevel r \<noteq> None \<and>
                 result_voiceIdentity r \<noteq> None \<and> result_reasoning r \<noteq> None)"

definition in_range :: "real option \<Rightarrow> bool" where
  "in_range v = (case v of None \<Rightarrow> False | Some x \<Rightarrow> x \<in> \<int> \<and> 1 \<le> x \<and> x \<le> 10)"

definition completed_has_results :: "AudioFile \<Rightarrow> bool" where
  "completed_has_results f = (status f = COMPLETED \<longrightarrow> has_results f)"

definition completed_in_range :: "AudioFile \<Rightarrow> bool" where
  "completed_in_range f = (status f = COMPLETED \<longrightarrow> in_range (emotionLevel f))"

text \<open>
  The invariant of the data model: the result fields are there if and only if the job is
  Completed, the error if and only if it is Failed.
\<close>

definition job_inv :: "AudioFile \<Rightarrow> bool" where
  "job_inv f =
     ((status f = COMPLETED \<longrightarrow> has_results f) \<and>
      (status f \<noteq> COMPLETED \<longrightarrow> no_results f) \<and>
      (error f \<noteq> None \<longleftrightarrow> status f = FAILED))"

text \<open>
  A job of a later queue that the run has not written to: it is a job of the queue \<open>s\<close> the
  run started from, or a job the user appended meanwhile, as \<open>handleFileChange\<close> built it.
\<close>

definition untouched :: "env \<Rightarrow> app \<Rightarrow> AudioFile \<Rightarrow> bool" where
  "untouched en s f =
     (f \<in> set (files s) \<or>
      (\<exists>t ps q. AddFiles (Some ps) \<in> set (user en t) \<and> q \<in> set ps \<and>
                 f = new_job (formatFileSize en) q))"

text \<open>The user never removes the job with identifier \<open>y\<close> during the run.\<close>

definition kept :: "env \<Rightarrow> string \<Rightarrow> bool" where
  "kept en y = (\<forall>t. RemoveFile y \<notin> set (user en t))"

text \<open>
  Since the run that started in \<open>s0\<close> set the flag, the flag is set, and it was set in
  every value of the state rendered from then on.
\<close>

definition flag_set_since :: "app \<Rightarrow> app \<Rightarrow> bool" where
  "flag_set_since s0 s =
     (isProcessing s \<and>
      (\<exists>mid. renders s = renders s0 @ (files s0, True) # mid \<and> (\<forall>r\<in>set mid. snd r)))"

text \<open>A job outside the working set of the run that started in \<open>s\<close> is untouched.\<close>

definition outside :: "env \<Rightarrow> app \<Rightarrow> AudioFile \<Rightarrow> bool" where
  "outside en s f = (id' f \<notin> working_ids s \<longrightarrow> untouched en s f)"

text \<open>
  The loop invariants behind the data-model invariant, with \<open>p\<close> the working set: before the
  job at index \<open>j\<close> is taken up, no job whose identifier is still to be processed is
  Completed; while it is being processed, no job with its identifier is Completed or Failed.
\<close>

definition waiting :: "AudioFile list \<Rightarrow> nat \<Rightarrow> AudioFile \<Rightarrow> bool" where
  "waiting p j f = (job_inv f \<and> (id' f \<in> id' ` set (drop j p) \<longrightarrow> status f \<noteq> COMPLETED))"

definition in_progress :: "AudioFile list \<Rightarrow> nat \<Rightarrow> AudioFile \<Rightarrow> bool" where
  "in_progress p j f =
     (job_inv f \<and>
      (id' f = id' (p ! j) \<longrightarrow> status f \<noteq> COMPLETED \<and> status f \<noteq> FAILED) \<and>
      (id' f \<in> id' ` set (drop (Suc j) p) \<longrightarrow> status f \<noteq> COMPLETED))"

text \<open>Every result the inference client returns has its four fields.\<close>

definition results_complete :: "env \<Rightarrow> bool" where
  "results_complete en = (\<forall>i k r. outcome en i k = InferReturns r \<longrightarrow> complete r)"

text \<open>Every result it returns has an intensity that is an integer from 1 to 10.\<close>

definition levels_in_range :: "env \<Rightarrow> bool" where
  "levels_in_range en =
     (\<forall>i k r. outcome en i k = InferReturns r \<longrightarrow> in_range (result_emotionLevel r))"

section \<open>Example inputs\<close>

definition wav :: "string \<Rightarrow> File" where
  "wav n = \<lparr>fname = n, fsize = 2048, ftype = ''audio/wav''\<rparr>"

definition idle_job :: "string \<Rightarrow> string \<Rightarrow> AudioFile" where
  "idle_job x n = new_job (\<lambda>b. ''2 KB'') (x, wav n)"

text \<open>A queue at rest, and a queue in the middle of a run.\<close>

definition queue_of :: "AudioFile list \<Rightarrow> app" where
  "queue_of q = \<lparr>files = q, isProcessing = False, tick = 0, trace = [], renders = []\<rparr>"

definition running :: "AudioFile list \<Rightarrow> app" where
  "running q = \<lparr>files = q, isProcessing = True, tick = 0, trace = [], renders = []\<rparr>"

definition err :: "string \<Rightarrow> js_error" where
  "err m = Thrown (Text m)"

text \<open>
  A throttled service: the first call answers 429, the second RESOURCE_EXHAUSTED, the third
  fails for another reason. The user does nothing meanwhile.
\<close>

definition env_throttled_twice :: env where
  "env_throttled_twice =
     \<lparr>outcome = (\<lambda>i k. if k = 0 then InferThrows (err ''429 Too Many Requests'')
                       else if k = 1 then InferThrows (err ''RESOURCE_EXHAUSTED'')
                       else InferThrows (err ''Failed to fetch'')),
      user = (\<lambda>t. []),
      formatFileSize = (\<lambda>b. ''2 KB'')\<rparr>"

definition calm :: AnalysisResult where
  "calm = \<lparr>result_emotionType = Some ''calm'', result_emotionLevel = Some 3,
            result_voiceIdentity = Some ''adult male'',
            result_reasoning = Some ''steady pitch''\<rparr>"

text \<open>
  The file of the job at index 1 of the working set cannot be read (the encoder rejects
  with an event that has no message); every other job is analysed at the first attempt.
\<close>

definition env_second_unreadable :: env where
  "env_second_unreadable =
     \<lparr>outcome = (\<lambda>i k. if i = 1 then EncodeThrows (Thrown NoMessage) else InferReturns calm),
      user = (\<lambda>t. []),
      formatFileSize = (\<lambda>b. ''2 KB'')\<rparr>"

definition three_idle :: app where
  "three_idle = queue_of [idle_job ''a'' ''a.wav'', idle_job ''b'' ''b.wav'', idle_job ''c'' ''c.wav'']"

text \<open>An encoder that rejects without a reason: the value caught is \<open>undefined\<close>.\<close>

definition env_no_reason :: env where
  "env_no_reason =
     \<lparr>outcome = (\<lambda>i k. EncodeThrows Nullish),
      user = (\<lambda>t. []),
      formatFileSize = (\<lambda>b. ''2 KB'')\<rparr>"

text \<open>A service that answers every call with RESOURCE_EXHAUSTED, and never with "429".\<close>

definition env_exhausted :: env where
  "env_exhausted =
     \<lparr>outcome = (\<lambda>i k. InferThrows (err ''RESOURCE_EXHAUSTED'')),
      user = (\<lambda>t. []),
      formatFileSize = (\<lambda>b. ''2 KB'')\<rparr>"


text \<open>A service whose answer carries the intensity 11, and one whose answer is \<open>{}\<close>.\<close>

definition loud :: AnalysisResult where
  "loud = \<lparr>result_emotionType = Some ''anger'', result_emotionLevel = Some 11,
            result_voiceIdentity = Some ''young woman'', result_reasoning = Some ''shouting''\<rparr>"

definition env_loud :: env where
  "env_loud =
     \<lparr>outcome = (\<lambda>i k. InferReturns loud),
      user = (\<lambda>t. []),
      formatFileSize = (\<lambda>b. ''2 KB'')\<rparr>"

definition empty_object :: AnalysisResult where
  "empty_object = \<lparr>result_emotionType = None, result_emotionLevel = None,
                    result_voiceIdentity = None, result_reasoning = None\<rparr>"

definition env_empty_object :: env where
  "env_empty_object =
     \<lparr>outcome = (\<lambda>i k. InferReturns empty_object),
      user = (\<lambda>t. []),
      formatFileSize = (\<lambda>b. ''2 KB'')\<rparr>"

text \<open>A service that is down: every call fails, with a message that has neither needle.\<close>

definition env_down :: env where
  "env_down =
     \<lparr>outcome = (\<lambda>i k. InferThrows (err ''Failed to fetch'')),
      user = (\<lambda>t. []),
      formatFileSize = (\<lambda>b. ''2 KB'')\<rparr>"

text \<open>A file whose name has a double quote in it: \<open>my"take.wav\<close>.\<close>

definition quote_name :: string where
  "quote_name = ''my'' @ [dq] @ ''take.wav''"

text \<open>
  A user who, while the run is suspended for the second time, adds a file \<open>d.wav\<close> and, at
  the fourth suspension, removes the job \<open>c\<close>. The file of the job at index 1 of the
  working set is unreadable.
\<close>

definition env_busy_user :: env where
  "env_busy_user =
     \<lparr>outcome = (\<lambda>i k. if i = 1 then EncodeThrows (Thrown NoMessage) else InferReturns calm),
      user = (\<lambda>t. if t = 1 then [AddFiles (Some [(''d'', wav ''d.wav'')])]
                   else if t = 3 then [RemoveFile ''c''] else []),
      formatFileSize = (\<lambda>b. ''2 KB'')\<rparr>"

text \<open>A user who, at the second suspension, adds a file \<open>d.wav\<close>; the service works.\<close>

definition env_adds_file :: env where
  "env_adds_file =
     \<lparr>outcome = (\<lambda>i k. if i = 1 then EncodeThrows (Thrown NoMessage) else InferReturns calm),
      user = (\<lambda>t. if t = 1 then [AddFiles (Some [(''d'', wav ''d.wav'')])] else []),
      formatFileSize = (\<lambda>b. ''2 KB'')\<rparr>"

text \<open>A queue whose first job is Completed already; the other two are Idle.\<close>

definition one_done :: app where
  "one_done = queue_of [mark_completed calm (idle_job ''a'' ''a.wav''),
                        idle_job ''b'' ''b.wav'', idle_job ''c'' ''c.wav'']"

text \<open>
  A queue in which \<open>Math.random\<close> has drawn the same identifier twice: a Completed job and
  an Idle one share it.
\<close>

definition shared_id :: app where
  "shared_id = queue_of [mark_completed calm (idle_job ''a'' ''a.wav''), idle_job ''a'' ''b.wav'']"

section \<open>The substring test\<close>

text \<open>\<open>includes'\<close> holds exactly when the needle is a contiguous part of the string.\<close>

lemma starts_with_iff: "starts_with s n \<longleftrightarrow> (\<exists>q. s = n @ q)"
  by (induction s n rule: starts_with.induct) auto

lemma includes_iff: "includes' s n \<longleftrightarrow> (\<exists>p q. s = p @ n @ q)"
proof (induction s)
  case Nil
  then show ?case by auto
next
  case (Cons a s)
  show ?case
  proof
    assume "includes' (a # s) n"
    then consider "starts_with (a # s) n" | "includes' s n" by auto
    then show "\<exists>p q. a # s = p @ n @ q"
    proof cases
      case 1
      then obtain q where "a # s = n @ q" by (auto simp: starts_with_iff)
      then have "a # s = [] @ n @ q" by simp
      then show ?thesis by blast
    next
      case 2
      then obtain p q where "s = p @ n @ q" using Cons.IH by auto
      then have "a # s = (a # p) @ n @ q" by simp
      then show ?thesis by blast
    qed
  next
    assume "\<exists>p q. a # s = p @ n @ q"
    then obtain p q where pq: "a # s = p @ n @ q" by auto
    show "includes' (a # s) n"
    proof (cases p)
      case Nil
      with pq have "starts_with (a # s) n" by (auto simp: starts_with_iff)
      then show ?thesis by simp
    next
      case (Cons b p')
      with pq have "s = p' @ n @ q" by simp
      then have "includes' s n" using Cons.IH by auto
      then show ?thesis by simp
    qed
  qed
qed

section \<open>Basic facts about the state updates\<close>

declare attempt_loop.simps [simp del] run_loop.simps [simp del] last_from.simps [simp del]

lemma setFiles_sel [simp]:
  "files (setFiles g s) = g (files s)"
  "isProcessing (setFiles g s) = isProcessing s"
  "tick (setFiles g s) = tick s"
  "trace (setFiles g s) = trace s"
  "renders (setFiles g s) = renders s @ [(g (files s), isProcessing s)]"
  by (simp_all add: setFiles_def)

lemma setIsProcessing_sel [simp]:
  "files (setIsProcessing b s) = files s"
  "isProcessing (setIsProcessing b s) = b"
  "tick (setIsProcessing b s) = tick s"
  "trace (setIsProcessing b s) = trace s"
  "renders (setIsProcessing b s) = renders s @ [(files s, b)]"
  by (simp_all add: setIsProcessing_def)

lemma emit_sel [simp]:
  "files (emit e s) = files s"
  "isProcessing (emit e s) = isProcessing s"
  "tick (emit e s) = tick s"
  "trace (emit e s) = trace s @ [(tick s, e)]"
  "renders (emit e s) = renders s"
  by (simp_all add: emit_def)

lemma apply_action_sel [simp]:
  "trace (apply_action en a s) = trace s"
  "isProcessing (apply_action en a s) = isProcessing s"
  "tick (apply_action en a s) = tick s"
  by (cases a; simp add: handleFileChange_def removeFile_def click_clearAll_def clearAll_def
        split: option.splits)+

lemma fold_action_sel [simp]:
  "trace (fold (apply_action en) as s) = trace s"
  "isProcessing (fold (apply_action en) as s) = isProcessing s"
  "tick (fold (apply_action en) as s) = tick s"
  by (induction as arbitrary: s; simp)+

lemma await_sel [simp]:
  "trace (await en s) = trace s"
  "isProcessing (await en s) = isProcessing s"
  "tick (await en s) = Suc (tick s)"
  by (simp_all add: await_def)

lemma sleep_sel [simp]:
  "trace (sleep en ms s) = trace s @ [(tick s, E_sleep ms)]"
  "isProcessing (sleep en ms s) = isProcessing s"
  "tick (sleep en ms s) = Suc (tick s)"
  by (simp_all add: sleep_def)

lemma give_up_sel [simp]:
  "trace (give_up af e s) = trace s @ [(tick s, E_failed (id' af) (error_label e))]"
  "isProcessing (give_up af e s) = isProcessing s"
  "tick (give_up af e s) = tick s"
  "files (give_up af e s) = update_job (id' af) (mark_failed e) (files s)"
  by (simp_all add: give_up_def)

lemma mark_id [simp]:
  "id' (mark_processing f) = id' f"
  "id' (mark_completed r f) = id' f"
  "id' (mark_failed e f) = id' f"
  by (simp_all add: mark_processing_def mark_completed_def mark_failed_def)

section \<open>Stamped events\<close>

lemma stamp_append:
  "stamp t (es @ es') = stamp t es @ stamp (t + suspensions es) es'"
  by (induction es arbitrary: t) (simp_all add: suspensions_def add.assoc)

lemma suspensions_simps [simp]:
  "suspensions [] = 0"
  "suspensions (e # es) = suspends e + suspensions es"
  "suspensions (es @ es') = suspensions es + suspensions es'"
  by (simp_all add: suspensions_def)

lemma map_snd_stamp [simp]: "map snd (stamp t es) = es"
  by (induction es arbitrary: t) simp_all

lemma length_stamp [simp]: "length (stamp t es) = length es"
  by (induction es arbitrary: t) simp_all

lemma logged_refl: "trace s' = trace s \<Longrightarrow> tick s' = tick s \<Longrightarrow> logged s [] s'"
  by (simp add: logged_def)

lemma logged_trans: "logged s es s' \<Longrightarrow> logged s' es' s'' \<Longrightarrow> logged s (es @ es') s''"
  by (simp add: logged_def stamp_append)

lemma logged_update: "suspends e = 0 \<Longrightarrow> logged s [e] (emit e (setFiles g s))"
  by (simp add: logged_def)

lemma logged_call: "suspends e = 1 \<Longrightarrow> logged s [e] (await en (emit e s))"
  by (simp add: logged_def)

lemma logged_calls:
  "logged s (calls x (EncodeThrows e)) (await en (emit (E_fileToBase64 x) s))"
  "logged s (calls x (InferThrows e))
     (await en (emit (E_analyzeAudioEmotion x) (await en (emit (E_fileToBase64 x) s))))"
  "logged s (calls x (InferReturns r))
     (await en (emit (E_analyzeAudioEmotion x) (await en (emit (E_fileToBase64 x) s))))"
  by (simp_all add: logged_def)

section \<open>The last attempt of a job\<close>

lemma last_from_step:
  "k < maxRetries \<Longrightarrow> rate_limited (outcome en i k) \<Longrightarrow>
   last_from en i k = last_from en i (k + 1)"
  by (subst last_from.simps) auto

lemma last_from_stop:
  "\<not> (k < maxRetries \<and> rate_limited (outcome en i k)) \<Longrightarrow> last_from en i k = k"
  by (subst last_from.simps) auto

lemma last_from_bounds: "k \<le> maxRetries \<Longrightarrow> k \<le> last_from en i k \<and> last_from en i k \<le> maxRetries"
proof (induction en i k rule: last_from.induct)
  case (1 en i k)
  show ?case
  proof (cases "k < maxRetries \<and> rate_limited (outcome en i k)")
    case True
    then have "k + 1 \<le> last_from en i (k + 1) \<and> last_from en i (k + 1) \<le> maxRetries"
      using "1.IH" by simp
    then show ?thesis
      using True by (simp add: last_from_step)
  next
    case False
    then show ?thesis
      using "1.prems" by (simp add: last_from_stop)
  qed
qed

lemma last_from_retried:
  "k \<le> j \<Longrightarrow> j < last_from en i k \<Longrightarrow> rate_limited (outcome en i j)"
proof (induction en i k rule: last_from.induct)
  case (1 en i k)
  show ?case
  proof (cases "k < maxRetries \<and> rate_limited (outcome en i k)")
    case True
    then have eq: "last_from en i k = last_from en i (k + 1)"
      by (simp add: last_from_step)
    show ?thesis
    proof (cases "j = k")
      case True
      with \<open>k < maxRetries \<and> rate_limited (outcome en i k)\<close> show ?thesis by simp
    next
      case False
      with "1.prems" eq "1.IH" [OF True] show ?thesis by simp
    qed
  next
    case False
    then have "last_from en i k = k" by (rule last_from_stop)
    with "1.prems" show ?thesis by simp
  qed
qed

lemma last_from_stops:
  "rate_limited (outcome en i (last_from en i k)) \<Longrightarrow> k \<le> maxRetries \<Longrightarrow>
   last_from en i k = maxRetries"
proof (induction en i k rule: last_from.induct)
  case (1 en i k)
  show ?case
  proof (cases "k < maxRetries \<and> rate_limited (outcome en i k)")
    case True
    then have eq: "last_from en i k = last_from en i (k + 1)"
      by (simp add: last_from_step)
    with "1.IH" [OF True] "1.prems" True show ?thesis by simp
  next
    case False
    then have eq: "last_from en i k = k" by (rule last_from_stop)
    with "1.prems" False show ?thesis by simp
  qed
qed

section \<open>How the retry loop runs and ends\<close>

text \<open>
  From \<open>retryCount = k\<close> the loop makes the attempts up to the last one, logging their
  calls and backoffs, and is then left as \<open>finish\<close> says. Anything that holds before and is
  kept by a suspension and by an event holds when the last attempt has made its calls.
\<close>

lemma attempt_loop_runs:
  assumes "k \<le> maxRetries" and "J s"
    and "\<And>s. J s \<Longrightarrow> J (await en s)"
    and "\<And>s e. J s \<Longrightarrow> J (emit e s)"
  shows "\<exists>s'. J s' \<and> logged s (attempts en i (id' af) k) s' \<and>
              attempt_loop en i af k s = finish af (outcome en i (last_from en i k)) s'"
  using assms
proof (induction en i af k s rule: attempt_loop.induct)
  case (1 en i af k s)
  let ?x = "id' af"
  let ?oc = "outcome en i k"
  have k: "k \<le> maxRetries" by fact
  define s1 where "s1 = await en (emit (E_fileToBase64 ?x) s)"
  define s2 where "s2 = await en (emit (E_analyzeAudioEmotion ?x) s1)"
  have J1: "J s1" and J2: "J s2"
    using "1.prems" by (simp_all add: s1_def s2_def)
  show ?case
  proof (cases "k < maxRetries \<and> rate_limited ?oc")
    case True
    then obtain e where e: "thrown ?oc = Some e" "isRateLimit e = Some True"
      by (auto simp: rate_limited_def split: option.splits)
    define s'' where "s'' = (case ?oc of EncodeThrows _ \<Rightarrow> s1 | _ \<Rightarrow> s2)"
    have J'': "J s''" using J1 J2 by (simp add: s''_def split: attempt_outcome.split)
    have l'': "logged s (calls ?x ?oc) s''"
      using e(1) logged_calls [of s ?x _ en]
      by (cases ?oc) (simp_all add: s''_def s1_def s2_def)
    define s3 where "s3 = sleep en ((k + 1) * 5000) s''"
    have J3: "J s3" using J'' "1.prems"(3,4) by (simp add: s3_def sleep_def)
    have l3: "logged s (calls ?x ?oc @ [E_sleep ((k + 1) * 5000)]) s3"
      using l'' by (rule logged_trans) (simp add: s3_def sleep_def logged_call)
    have unf: "attempt_loop en i af k s = attempt_loop en i af (k + 1) s3"
      using e True k
      by (subst attempt_loop.simps)
         (cases ?oc; simp add: Let_def s''_def s1_def s2_def s3_def)
    have "\<exists>s'. J s' \<and> logged s3 (attempts en i ?x (k + 1)) s' \<and>
            attempt_loop en i af (k + 1) s3 = finish af (outcome en i (last_from en i (k + 1))) s'"
      using "1.IH" [OF _ s1_def e(2), of s''] k True J3 "1.prems"(3,4)
      by (simp add: s3_def)
    then obtain s' where s': "J s'" "logged s3 (attempts en i ?x (k + 1)) s'"
      "attempt_loop en i af (k + 1) s3 = finish af (outcome en i (last_from en i (k + 1))) s'"
      by blast
    have lf: "last_from en i k = last_from en i (k + 1)"
      using True by (simp add: last_from_step)
    have "k + 1 \<le> last_from en i (k + 1)"
      using last_from_bounds [of "k + 1" en i] True by simp
    then have at: "attempts en i ?x k =
                 (calls ?x ?oc @ [E_sleep ((k + 1) * 5000)]) @ attempts en i ?x (k + 1)"
      by (simp add: attempts_def lf upt_conv_Cons)
    have "logged s (attempts en i ?x k) s'"
      unfolding at using l3 s'(2) by (rule logged_trans)
    with s' unf lf show ?thesis by auto
  next
    case False
    then have lf: "last_from en i k = k" by (rule last_from_stop)
    then have at: "attempts en i ?x k = calls ?x ?oc" by (simp add: attempts_def)
    show ?thesis
    proof (cases ?oc)
      case (EncodeThrows e)
      have "attempt_loop en i af k s = finish af ?oc s1"
        using False k EncodeThrows
        by (subst attempt_loop.simps)
           (auto simp: Let_def s1_def escapes_def rate_limited_def split: option.splits)
      moreover have "logged s (calls ?x ?oc) s1"
        using logged_calls(1) [of s ?x _ en] EncodeThrows by (simp add: s1_def)
      ultimately show ?thesis using J1 lf at by auto
    next
      case (InferThrows e)
      have "attempt_loop en i af k s = finish af ?oc s2"
        using False k InferThrows
        by (subst attempt_loop.simps)
           (auto simp: Let_def s1_def s2_def escapes_def rate_limited_def split: option.splits)
      moreover have "logged s (calls ?x ?oc) s2"
        using logged_calls(2) [of s ?x _ en] InferThrows by (simp add: s1_def s2_def)
      ultimately show ?thesis using J2 lf at by auto
    next
      case (InferReturns r)
      have "attempt_loop en i af k s = finish af ?oc s2"
        using k InferReturns
        by (subst attempt_loop.simps) (simp add: Let_def s1_def s2_def)
      moreover have "logged s (calls ?x ?oc) s2"
        using logged_calls(3) [of s ?x _ en] InferReturns by (simp add: s1_def s2_def)
      ultimately show ?thesis using J2 lf at by auto
    qed
  qed
qed

section \<open>How a job ends\<close>

lemma finish_logged: "logged s (verdict (id' af) oc) (state_of (finish af oc s))"
  by (cases oc) (simp_all add: logged_def)

lemma finish_returned [simp]: "is_returned (finish af oc s) = (\<not> escapes oc)"
  by (cases oc) (simp_all add: escapes_def)

lemma finish_isProcessing [simp]: "isProcessing (state_of (finish af oc s)) = isProcessing s"
  by (cases oc) simp_all

lemma finish_rejects: "escapes oc \<Longrightarrow> finish af oc s = Rejects s"
  by (cases oc) (simp_all add: escapes_def)

lemma finish_returns:
  "\<not> escapes oc \<Longrightarrow>
   \<exists>m. finish af oc s = Returns (emit (hd (verdict (id' af) oc)) (setFiles (update_job (id' af) m) s)) \<and>
       (\<forall>f. id' (m f) = id' f \<and> file' (m f) = file' f \<and> name (m f) = name f \<and>
            size' (m f) = size' f \<and> recorded oc (m f)) \<and>
       ((\<exists>r. oc = InferReturns r \<and> m = mark_completed r) \<or>
        (\<exists>e. thrown oc = Some e \<and> m = mark_failed e))"
  by (cases oc) (auto simp: give_up_def mark_completed_def mark_failed_def)

lemma process_job_runs:
  assumes "J (emit (E_processing (id' af)) (setFiles (update_job (id' af) mark_processing) s))"
    and "\<And>s. J s \<Longrightarrow> J (await en s)"
    and "\<And>s e. J s \<Longrightarrow> J (emit e s)"
  shows "\<exists>s'. J s' \<and> logged s (E_processing (id' af) # attempts en i (id' af) 0) s' \<and>
              process_job en i af s = finish af (outcome en i (last_attempt en i)) s'"
proof -
  let ?s0 = "emit (E_processing (id' af)) (setFiles (update_job (id' af) mark_processing) s)"
  obtain s' where s': "J s'" "logged ?s0 (attempts en i (id' af) 0) s'"
    "attempt_loop en i af 0 ?s0 = finish af (outcome en i (last_from en i 0)) s'"
    using attempt_loop_runs [where J = J and k = 0 and s = ?s0 and en = en and i = i and af = af]
      assms by auto
  have "logged s [E_processing (id' af)] ?s0" by (simp add: logged_update)
  then have "logged s ([E_processing (id' af)] @ attempts en i (id' af) 0) s'"
    using s'(2) by (rule logged_trans)
  with s' show ?thesis by (auto simp: process_job_def last_attempt_def)
qed

lemma process_job_logged:
  "logged s (E_processing (id' af) # attempts en i (id' af) 0 @
             verdict (id' af) (outcome en i (last_attempt en i)))
     (state_of (process_job en i af s))"
proof -
  obtain s' where s': "logged s (E_processing (id' af) # attempts en i (id' af) 0) s'"
    "process_job en i af s = finish af (outcome en i (last_attempt en i)) s'"
    using process_job_runs [where J = "\<lambda>s. True"] by blast
  show ?thesis
    using logged_trans [OF s'(1) finish_logged] s'(2) by simp
qed

lemma job_events_eq:
  "job_events en i af =
     E_processing (id' af) # attempts en i (id' af) 0 @
     verdict (id' af) (outcome en i (last_attempt en i))"
  using process_job_logged [of blank af en i]
  by (simp add: job_events_def logged_def blank_def)

lemma job_rejects_eq: "job_rejects en i af = escapes (outcome en i (last_attempt en i))"
proof -
  obtain s' where "process_job en i af blank = finish af (outcome en i (last_attempt en i)) s'"
    using process_job_runs [where J = "\<lambda>s. True"] by blast
  then show ?thesis by (simp add: job_rejects_def)
qed

lemma process_job_events: "logged s (job_events en i af) (state_of (process_job en i af s))"
  using process_job_logged by (simp add: job_events_eq)

lemma process_job_returned: "is_returned (process_job en i af s) = (\<not> job_rejects en i af)"
proof -
  obtain s' where "process_job en i af s = finish af (outcome en i (last_attempt en i)) s'"
    using process_job_runs [where J = "\<lambda>s. True"] by blast
  then show ?thesis by (simp add: job_rejects_eq)
qed

section \<open>Proof rules for the two loops\<close>

lemma ends_Returns [simp]: "ends Q J (Returns s) = Q s"
  and ends_Rejects [simp]: "ends Q J (Rejects s) = J s"
  by (simp_all add: ends_def)

lemma ends_state: "ends Q J r \<Longrightarrow> (\<And>s. Q s \<Longrightarrow> R s) \<Longrightarrow> (\<And>s. J s \<Longrightarrow> R s) \<Longrightarrow> R (state_of r)"
  by (cases r) simp_all

lemma ends_mono:
  "ends Q J r \<Longrightarrow> (\<And>s. Q s \<Longrightarrow> Q' s) \<Longrightarrow> (\<And>s. J s \<Longrightarrow> J' s) \<Longrightarrow> ends Q' J' r"
  by (cases r) simp_all

lemma process_job_rule:
  assumes "J (emit (E_processing (id' af)) (setFiles (update_job (id' af) mark_processing) s))"
    and "\<And>s. J s \<Longrightarrow> J (await en s)"
    and "\<And>s e. J s \<Longrightarrow> J (emit e s)"
    and ok: "\<And>s r. J s \<Longrightarrow> outcome en i (last_attempt en i) = InferReturns r \<Longrightarrow>
               Q (emit (E_completed (id' af) r)
                    (setFiles (update_job (id' af) (mark_completed r)) s))"
    and ko: "\<And>s e. J s \<Longrightarrow> thrown (outcome en i (last_attempt en i)) = Some e \<Longrightarrow>
               Q (give_up af e s)"
  shows "ends Q J (process_job en i af s)"
proof -
  let ?oc = "outcome en i (last_attempt en i)"
  obtain s' where s': "J s'" "process_job en i af s = finish af ?oc s'"
    using process_job_runs [where J = J, OF assms(1-3)] by blast
  show ?thesis
  proof (cases ?oc)
    case (InferReturns r)
    with s' ok show ?thesis by simp
  next
    case (EncodeThrows e)
    with s' ko [of s' e] show ?thesis by simp
  next
    case (InferThrows e)
    with s' ko [of s' e] show ?thesis by simp
  qed
qed

lemma run_loop_rule:
  assumes "I i s" and "i \<le> length p"
    and job: "\<And>j s. j < length p \<Longrightarrow> I j s \<Longrightarrow> ends (I (Suc j)) J (process_job en j (p ! j) s)"
    and pause: "\<And>j s. I j s \<Longrightarrow> I j (sleep en 1500 s)"
  shows "ends (I (length p)) J (run_loop en p i s)"
  using assms
proof (induction en p i s rule: run_loop.induct)
  case (1 en p i s)
  show ?case
  proof (cases "i < length p")
    case True
    have e: "ends (I (Suc i)) J (process_job en i (p ! i) s)"
      using "1.prems"(3) [OF True "1.prems"(1)] .
    show ?thesis
    proof (cases "process_job en i (p ! i) s")
      case (Rejects s1)
      with e True show ?thesis
        by (subst run_loop.simps) simp
    next
      case (Returns s1)
      define s2 where "s2 = (if int i < int (length p) - 1 then sleep en 1500 s1 else s1)"
      have "I (Suc i) s1" using e Returns by simp
      then have "I (Suc i) s2" using "1.prems"(4) by (simp add: s2_def)
      then have "ends (I (length p)) J (run_loop en p (i + 1) s2)"
        using "1.IH" [OF True Returns] True "1.prems"(3,4) by (simp add: s2_def)
      then show ?thesis
        using True Returns by (subst run_loop.simps) (simp add: s2_def)
    qed
  next
    case False
    with "1.prems"(1,2) show ?thesis
      by (subst run_loop.simps) simp
  qed
qed

lemma processBatch_rule:
  assumes "\<not> isProcessing s" and "I 0 (setIsProcessing True s)"
    and job: "\<And>j s'. j < length (filter is_pending (files s)) \<Longrightarrow> I j s' \<Longrightarrow>
                ends (I (Suc j)) J (process_job en j (filter is_pending (files s) ! j) s')"
    and pause: "\<And>j s'. I j s' \<Longrightarrow> I j (sleep en 1500 s')"
    and fin: "\<And>s'. I (length (filter is_pending (files s))) s' \<Longrightarrow> Q (setIsProcessing False s')"
  shows "ends Q J (processBatch en s)"
proof -
  have "ends (I (length (filter is_pending (files s)))) J
          (run_loop en (filter is_pending (files s)) 0 (setIsProcessing True s))"
    using assms(2) _ job pause by (rule run_loop_rule) simp
  then show ?thesis
    using assms(1) fin
    by (cases "run_loop en (filter is_pending (files s)) 0 (setIsProcessing True s)")
       (simp_all add: processBatch_def)
qed

section \<open>Invariants that every state update keeps\<close>

lemma apply_action_cases:
  "apply_action en a s = s \<or> (\<exists>g. apply_action en a s = setFiles g s)"
  by (cases a) (auto simp: handleFileChange_def removeFile_def click_clearAll_def clearAll_def
                  split: option.splits)

lemma await_any:
  assumes "I s"
    and upd: "\<And>s g. I s \<Longrightarrow> I (setFiles g s)"
    and tck: "\<And>s n. I s \<Longrightarrow> I (s\<lparr>tick := n\<rparr>)"
  shows "I (await en s)"
proof -
  have "I (fold (apply_action en) as s)" for as
    using assms(1)
  proof (induction as arbitrary: s)
    case Nil
    then show ?case by simp
  next
    case (Cons a as)
    have "I (apply_action en a s)"
      using apply_action_cases [of en a s] Cons.prems upd by auto
    then show ?case by (simp add: Cons.IH)
  qed
  then show ?thesis by (simp add: await_def tck)
qed

lemma process_job_any:
  assumes "I s"
    and upd: "\<And>s g. I s \<Longrightarrow> I (setFiles g s)"
    and tck: "\<And>s n. I s \<Longrightarrow> I (s\<lparr>tick := n\<rparr>)"
    and emt: "\<And>s e. I s \<Longrightarrow> I (emit e s)"
  shows "ends I I (process_job en i af s)"
proof (rule process_job_rule [where J = I])
  show "I (emit (E_processing (id' af)) (setFiles (update_job (id' af) mark_processing) s))"
    using assms by simp
  show "I (await en s')" if "I s'" for s'
    using that upd tck by (rule await_any)
  show "I (emit e s')" if "I s'" for s' e
    using that by (rule emt)
  show "I (emit (E_completed (id' af) r) (setFiles (update_job (id' af) (mark_completed r)) s'))"
    if "I s'" for s' r
    using that upd emt by simp
  show "I (give_up af e s')" if "I s'" for s' e
    using that upd emt by (simp add: give_up_def)
qed

lemma run_loop_any:
  assumes "I s"
    and upd: "\<And>s g. I s \<Longrightarrow> I (setFiles g s)"
    and tck: "\<And>s n. I s \<Longrightarrow> I (s\<lparr>tick := n\<rparr>)"
    and emt: "\<And>s e. I s \<Longrightarrow> I (emit e s)"
  shows "ends I I (run_loop en p 0 s)"
proof (rule run_loop_rule [where I = "\<lambda>j. I"])
  show "I s" by fact
  show "0 \<le> length p" by simp
  show "ends I I (process_job en j (p ! j) s')" if "I s'" for j s'
    using that upd tck emt by (rule process_job_any)
  show "I (sleep en 1500 s')" if "I s'" for s'
    unfolding sleep_def using emt [OF that] upd tck by (rule await_any)
qed

section \<open>Invariants of the jobs in the queue\<close>

lemma holds_emit [simp]: "holds P H (emit e s) = holds P H s"
  by (simp add: holds_def)

lemma holds_tick [simp]: "holds P H (s\<lparr>tick := n\<rparr>) = holds P H s"
  by (simp add: holds_def)

lemma holds_setFiles:
  assumes "holds P H s" and "\<And>f. f \<in> set (g (files s)) \<Longrightarrow> P' f \<and> H f"
  shows "holds P' H (setFiles g s)"
  using assms by (auto simp: holds_def)

lemma holds_update_job:
  assumes "holds P H s"
    and "\<And>f. P f \<Longrightarrow> P' (if id' f = x then g f else f) \<and> H (if id' f = x then g f else f)"
  shows "holds P' H (setFiles (update_job x g) s)"
proof (rule holds_setFiles [OF assms(1)])
  fix f assume "f \<in> set (update_job x g (files s))"
  then obtain f0 where "f0 \<in> set (files s)" "f = (if id' f0 = x then g f0 else f0)"
    by (auto simp: update_job_def)
  with assms show "P' f \<and> H f" by (auto simp: holds_def)
qed

lemma holds_apply_action:
  assumes "holds P H s" and "\<And>f. P f \<Longrightarrow> H f"
    and "\<And>ps q. a = AddFiles (Some ps) \<Longrightarrow> q \<in> set ps \<Longrightarrow> P (new_job (formatFileSize en) q)"
  shows "holds P H (apply_action en a s)"
proof (cases a)
  case (AddFiles picked)
  show ?thesis
  proof (cases picked)
    case None
    with AddFiles assms(1) show ?thesis by (simp add: handleFileChange_def)
  next
    case (Some ps)
    with AddFiles assms show ?thesis
      by (auto simp: handleFileChange_def intro!: holds_setFiles [OF assms(1)])
         (auto simp: holds_def)
  qed
next
  case (RemoveFile y)
  with assms(1,2) show ?thesis
    by (auto simp: removeFile_def holds_def)
next
  case (ClickClearAll c)
  with assms(1,2) show ?thesis
    by (auto simp: click_clearAll_def clearAll_def holds_def)
qed

lemma holds_fold:
  assumes "holds P H s" and "\<And>f. P f \<Longrightarrow> H f"
    and "\<And>ps q. AddFiles (Some ps) \<in> set as \<Longrightarrow> q \<in> set ps \<Longrightarrow> P (new_job (formatFileSize en) q)"
  shows "holds P H (fold (apply_action en) as s)"
  using assms
proof (induction as arbitrary: s)
  case Nil
  then show ?case by simp
next
  case (Cons a as)
  have "holds P H (apply_action en a s)"
    using Cons.prems by (intro holds_apply_action) auto
  then show ?case
    using Cons.prems by (auto intro!: Cons.IH)
qed

lemma holds_await:
  assumes "holds P H s" and "\<And>f. P f \<Longrightarrow> H f"
    and "\<And>t ps q. AddFiles (Some ps) \<in> set (user en t) \<Longrightarrow> q \<in> set ps \<Longrightarrow>
           P (new_job (formatFileSize en) q)"
  shows "holds P H (await en s)"
  unfolding await_def using assms by (auto intro!: holds_fold)

lemma holds_setIsProcessing:
  "holds P H s \<Longrightarrow> (\<And>f. P f \<Longrightarrow> H f) \<Longrightarrow> holds P H (setIsProcessing b s)"
  by (auto simp: holds_def)

lemma holds_weaken:
  "holds P H s \<Longrightarrow> (\<And>f. P f \<Longrightarrow> P' f) \<Longrightarrow> holds P' H s"
  by (auto simp: holds_def)

lemma process_job_holds:
  assumes P: "holds P H s"
    and start: "\<And>f. P f \<Longrightarrow> J (if id' f = id' af then mark_processing f else f)"
    and JH: "\<And>f. J f \<Longrightarrow> H f"
    and new: "\<And>t ps q. AddFiles (Some ps) \<in> set (user en t) \<Longrightarrow> q \<in> set ps \<Longrightarrow>
           J (new_job (formatFileSize en) q)"
    and ok: "\<And>f r. J f \<Longrightarrow> outcome en i (last_attempt en i) = InferReturns r \<Longrightarrow>
           Q (if id' f = id' af then mark_completed r f else f)"
    and ko: "\<And>f e. J f \<Longrightarrow> thrown (outcome en i (last_attempt en i)) = Some e \<Longrightarrow>
           Q (if id' f = id' af then mark_failed e f else f)"
    and QH: "\<And>f. Q f \<Longrightarrow> H f"
  shows "ends (holds Q H) (holds J H) (process_job en i af s)"
proof (rule process_job_rule [where J = "holds J H"])
  show "holds J H (emit (E_processing (id' af)) (setFiles (update_job (id' af) mark_processing) s))"
    using P start JH by (auto intro!: holds_update_job [where P = P])
  show "holds J H (await en s')" if "holds J H s'" for s'
    using that JH new by (rule holds_await)
  show "holds J H (emit e s')" if "holds J H s'" for s' e
    using that by simp
  show "holds Q H (emit (E_completed (id' af) r)
          (setFiles (update_job (id' af) (mark_completed r)) s'))"
    if "holds J H s'" "outcome en i (last_attempt en i) = InferReturns r" for s' r
    using that ok QH by (auto intro!: holds_update_job [where P = J])
  show "holds Q H (give_up af e s')"
    if "holds J H s'" "thrown (outcome en i (last_attempt en i)) = Some e" for s' e
    unfolding give_up_def using that ko QH
    by (auto intro!: holds_update_job [where P = J])
qed

lemma processBatch_holds:
  assumes "holds (P 0) H s" and "\<not> isProcessing s"
    and job: "\<And>j s'. j < length (filter is_pending (files s)) \<Longrightarrow> holds (P j) H s' \<Longrightarrow>
                ends (holds (P (Suc j)) H) (holds J H)
                  (process_job en j (filter is_pending (files s) ! j) s')"
    and PH: "\<And>j f. P j f \<Longrightarrow> H f"
    and new: "\<And>j t ps q. AddFiles (Some ps) \<in> set (user en t) \<Longrightarrow> q \<in> set ps \<Longrightarrow>
                P j (new_job (formatFileSize en) q)"
  shows "ends (holds (P (length (filter is_pending (files s)))) H) (holds J H) (processBatch en s)"
  using assms(2)
proof (rule processBatch_rule [where I = "\<lambda>j. holds (P j) H"])
  show "holds (P 0) H (setIsProcessing True s)"
    using assms(1) PH by (rule holds_setIsProcessing)
  show "ends (holds (P (Suc j)) H) (holds J H)
          (process_job en j (filter is_pending (files s) ! j) s')"
    if "j < length (filter is_pending (files s))" "holds (P j) H s'" for j s'
    using that by (rule job)
  show "holds (P j) H (sleep en 1500 s')" if "holds (P j) H s'" for j s'
    unfolding sleep_def
  proof (rule holds_await)
    show "holds (P j) H (emit (E_sleep 1500) s')" using that by simp
    show "H f" if "P j f" for f using that by (rule PH)
    show "P j (new_job (formatFileSize en) q)"
      if "AddFiles (Some ps) \<in> set (user en t)" "q \<in> set ps" for t ps q
      using that by (rule new)
  qed
  show "holds (P (length (filter is_pending (files s)))) H (setIsProcessing False s')"
    if "holds (P (length (filter is_pending (files s)))) H s'" for s'
    using that PH by (rule holds_setIsProcessing)
qed

section \<open>Jobs that stay in the queue\<close>

lemma has_emit [simp]: "has y R (emit e s) = has y R s"
  by (simp add: has_def)

lemma has_tick [simp]: "has y R (s\<lparr>tick := n\<rparr>) = has y R s"
  by (simp add: has_def)

lemma has_weaken: "has y R s \<Longrightarrow> (\<And>f. R f \<Longrightarrow> R' f) \<Longrightarrow> has y R' s"
  by (auto simp: has_def)

lemma has_update_job:
  assumes "has y R s" and "\<And>g. id' (m g) = id' g"
    and "\<And>g. x = y \<Longrightarrow> id' g = y \<Longrightarrow> R g \<Longrightarrow> R' (m g)"
    and "\<And>g. x \<noteq> y \<Longrightarrow> R g \<Longrightarrow> R' g"
  shows "has y R' (setFiles (update_job x m) s)"
proof -
  from assms(1) obtain f where f: "f \<in> set (files s)" "id' f = y" "R f" and run: "isProcessing s"
    by (auto simp: has_def)
  let ?f' = "if id' f = x then m f else f"
  have "?f' \<in> set (update_job x m (files s))"
    using f(1) by (auto simp: update_job_def)
  moreover have "id' ?f' = y" using f(2) assms(2) by simp
  moreover have "R' ?f'" using f(2,3) assms(3,4) by auto
  ultimately show ?thesis using run unfolding has_def by auto
qed

lemma has_update_other:
  "has y R s \<Longrightarrow> x \<noteq> y \<Longrightarrow> (\<And>g. id' (m g) = id' g) \<Longrightarrow> has y R (setFiles (update_job x m) s)"
  by (rule has_update_job [where R = R]) auto

lemma has_apply_action:
  assumes "has y R s" and "a \<noteq> RemoveFile y"
  shows "has y R (apply_action en a s)"
  using assms
  by (cases a)
     (auto simp: has_def handleFileChange_def removeFile_def click_clearAll_def
        split: option.splits)

lemma has_await:
  assumes "has y R s" and "kept en y"
  shows "has y R (await en s)"
proof -
  have "has y R (fold (apply_action en) as s)" if "RemoveFile y \<notin> set as" for as
    using assms(1) that
  proof (induction as arbitrary: s)
    case Nil
    then show ?case by simp
  next
    case (Cons a as)
    then have "has y R (apply_action en a s)"
      by (intro has_apply_action) auto
    with Cons show ?case by simp
  qed
  then show ?thesis using assms(2) by (simp add: await_def kept_def)
qed

text \<open>
  A job with identifier \<open>y\<close> that satisfies \<open>R\<close> stays through the processing of a job: with
  another identifier it is not written to; with the same identifier it is written to by the
  updates only, which keep \<open>R\<close> when \<open>R\<close> is about fields they leave alone, and on return it
  carries what the last attempt decided.
\<close>

lemma process_job_has_other:
  assumes "has y R s" and "kept en y" and "id' af \<noteq> y"
  shows "ends (has y R) (has y R) (process_job en i af s)"
proof (rule process_job_rule [where J = "has y R"])
  show "has y R (emit (E_processing (id' af)) (setFiles (update_job (id' af) mark_processing) s))"
    using assms(1,3) by (simp add: has_update_other)
  show "has y R (await en s')" if "has y R s'" for s'
    using that assms(2) by (rule has_await)
  show "has y R (emit e s')" if "has y R s'" for s' e
    using that by simp
  show "has y R (emit (E_completed (id' af) r)
          (setFiles (update_job (id' af) (mark_completed r)) s'))" if "has y R s'" for s' r
    using that assms(3) by (simp add: has_update_other)
  show "has y R (give_up af e s')" if "has y R s'" for s' e
    using that assms(3) by (simp add: give_up_def has_update_other)
qed

lemma process_job_has_self:
  assumes "has y (same_job p) s" and "kept en y" and "id' af = y"
  shows "ends (has y (\<lambda>f. same_job p f \<and> recorded (outcome en i (last_attempt en i)) f))
              (has y (\<lambda>f. same_job p f \<and> status f = PROCESSING))
           (process_job en i af s)"
proof -
  let ?oc = "outcome en i (last_attempt en i)"
  have "\<exists>s'. has y (\<lambda>f. same_job p f \<and> status f = PROCESSING) s' \<and>
          logged s (E_processing (id' af) # attempts en i (id' af) 0) s' \<and>
          process_job en i af s = finish af ?oc s'"
  proof (rule process_job_runs)
    show "has y (\<lambda>f. same_job p f \<and> status f = PROCESSING)
            (emit (E_processing (id' af)) (setFiles (update_job (id' af) mark_processing) s))"
    proof -
      have "has y (\<lambda>f. same_job p f \<and> status f = PROCESSING)
              (setFiles (update_job (id' af) mark_processing) s)"
        using assms(1)
      proof (rule has_update_job)
        show "id' (mark_processing g) = id' g" for g by simp
        show "same_job p (mark_processing g) \<and> status (mark_processing g) = PROCESSING"
          if "same_job p g" for g
          using that by (simp add: same_job_def mark_processing_def)
        show "same_job p g \<and> status g = PROCESSING" if "id' af \<noteq> y" for g
          using that assms(3) by simp
      qed
      then show ?thesis by simp
    qed
    show "has y (\<lambda>f. same_job p f \<and> status f = PROCESSING) (await en s')"
      if "has y (\<lambda>f. same_job p f \<and> status f = PROCESSING) s'" for s'
      using that assms(2) by (rule has_await)
    show "has y (\<lambda>f. same_job p f \<and> status f = PROCESSING) (emit e s')"
      if "has y (\<lambda>f. same_job p f \<and> status f = PROCESSING) s'" for s' e
      using that by simp
  qed
  then obtain s' where s': "has y (\<lambda>f. same_job p f \<and> status f = PROCESSING) s'"
    "process_job en i af s = finish af ?oc s'" by blast
  show ?thesis
  proof (cases "escapes ?oc")
    case True
    with s' show ?thesis by (simp add: finish_rejects)
  next
    case False
    then obtain m where m:
      "finish af ?oc s' = Returns (emit (hd (verdict (id' af) ?oc)) (setFiles (update_job (id' af) m) s'))"
      "\<forall>f. id' (m f) = id' f \<and> file' (m f) = file' f \<and> name (m f) = name f \<and>
            size' (m f) = size' f \<and> recorded ?oc (m f)"
      using finish_returns [of ?oc af s'] by blast
    have "has y (\<lambda>f. same_job p f \<and> recorded ?oc f) (setFiles (update_job (id' af) m) s')"
      using s'(1)
    proof (rule has_update_job)
      show "id' (m g) = id' g" for g using m(2) by simp
      show "same_job p (m g) \<and> recorded ?oc (m g)" if "same_job p g \<and> status g = PROCESSING" for g
        using that m(2) by (simp add: same_job_def)
      show "same_job p g \<and> recorded ?oc g"
        if "id' af \<noteq> y" for g
        using that assms(3) by simp
    qed
    with s'(2) m(1) show ?thesis by simp
  qed
qed

section \<open>The trace of a run\<close>

lemma gap_cond: "(int i < int n - 1) = (i + 1 < n)"
  by auto

lemma run_loop_prefix:
  assumes "i \<le> m" and "m \<le> length p"
    and "\<forall>j. i \<le> j \<and> j < m \<longrightarrow> \<not> job_rejects en j (p ! j)"
  shows "\<exists>s'. logged s (concat (map (\<lambda>j. job_events en j (p ! j) @ gap (length p) j) [i..<m])) s' \<and>
              run_loop en p i s = run_loop en p m s'"
  using assms
proof (induction "m - i" arbitrary: i s)
  case 0
  then have "i = m" by simp
  then show ?case by (auto simp: logged_def)
next
  case (Suc d)
  then have im: "i < m" and il: "i < length p" by auto
  have nr: "\<not> job_rejects en i (p ! i)" using Suc.prems(3) im by simp
  then obtain s1 where s1: "process_job en i (p ! i) s = Returns s1"
    using process_job_returned [of en i "p ! i" s] by (cases "process_job en i (p ! i) s") auto
  have l1: "logged s (job_events en i (p ! i)) s1"
    using process_job_events [of s en i "p ! i"] s1 by simp
  define s2 where "s2 = (if int i < int (length p) - 1 then sleep en 1500 s1 else s1)"
  have l2: "logged s1 (gap (length p) i) s2"
    by (simp add: s2_def gap_def gap_cond logged_def)
  have l12: "logged s (job_events en i (p ! i) @ gap (length p) i) s2"
    using l1 l2 by (rule logged_trans)
  have unf: "run_loop en p i s = run_loop en p (i + 1) s2"
    using il s1 by (subst run_loop.simps) (simp add: s2_def)
  have "\<exists>s'. logged s2 (concat (map (\<lambda>j. job_events en j (p ! j) @ gap (length p) j) [i + 1..<m])) s' \<and>
              run_loop en p (i + 1) s2 = run_loop en p m s'"
    using Suc.hyps(1) [of "i + 1" s2] Suc.hyps(2) Suc.prems im by auto
  then obtain s' where s':
    "logged s2 (concat (map (\<lambda>j. job_events en j (p ! j) @ gap (length p) j) [i + 1..<m])) s'"
    "run_loop en p (i + 1) s2 = run_loop en p m s'" by blast
  have "logged s ((job_events en i (p ! i) @ gap (length p) i) @
          concat (map (\<lambda>j. job_events en j (p ! j) @ gap (length p) j) [i + 1..<m])) s'"
    using l12 s'(1) by (rule logged_trans)
  then have "logged s (concat (map (\<lambda>j. job_events en j (p ! j) @ gap (length p) j) [i..<m])) s'"
    using im by (simp add: upt_conv_Cons)
  with unf s'(2) show ?case by auto
qed

lemma run_loop_rest:
  assumes "m \<le> length p"
  shows "\<exists>rest. logged s rest (state_of (run_loop en p m s))"
proof -
  let ?I = "\<lambda>s'. \<exists>es. logged s es s'"
  have "ends ?I ?I (run_loop en p m s)"
  proof (rule run_loop_rule [where I = "\<lambda>j. ?I"])
    show "?I s" by (rule exI [of _ "[]"]) (simp add: logged_def)
    show "m \<le> length p" by fact
    show "ends ?I ?I (process_job en j (p ! j) s')" if "?I s'" for j s'
    proof -
      from that obtain es where "logged s es s'" by blast
      then have "logged s (es @ job_events en j (p ! j)) (state_of (process_job en j (p ! j) s'))"
        using process_job_events by (rule logged_trans)
      then show ?thesis
        by (cases "process_job en j (p ! j) s'") auto
    qed
    show "?I (sleep en 1500 s')" if "?I s'" for s'
    proof -
      from that obtain es where "logged s es s'" by blast
      moreover have "logged s' [E_sleep 1500] (sleep en 1500 s')" by (simp add: logged_def)
      ultimately have "logged s (es @ [E_sleep 1500]) (sleep en 1500 s')" by (rule logged_trans)
      then show ?thesis by blast
    qed
  qed
  then show ?thesis by (cases "run_loop en p m s") auto
qed

lemma run_loop_end: "run_loop en p (length p) s = Returns s"
  by (subst run_loop.simps) simp

lemma processBatch_state:
  "\<not> isProcessing s \<Longrightarrow>
   trace (state_of (processBatch en s)) =
     trace (state_of (run_loop en (working_set s) 0 (setIsProcessing True s))) \<and>
   tick (state_of (processBatch en s)) =
     tick (state_of (run_loop en (working_set s) 0 (setIsProcessing True s))) \<and>
   is_returned (processBatch en s) =
     is_returned (run_loop en (working_set s) 0 (setIsProcessing True s))"
  by (cases "run_loop en (working_set s) 0 (setIsProcessing True s)")
     (simp_all add: processBatch_def working_set_def)

lemma processBatch_prefix:
  assumes "\<not> isProcessing s" and "m \<le> length (working_set s)"
    and "\<forall>j<m. \<not> job_rejects en j (working_set s ! j)"
  shows "\<exists>rest. logged s
           (concat (map (\<lambda>j. job_events en j (working_set s ! j) @ gap (length (working_set s)) j)
                      [0..<m]) @ rest)
           (state_of (processBatch en s)) \<and>
         (m = length (working_set s) \<longrightarrow> rest = [] \<and> is_returned (processBatch en s))"
proof -
  let ?p = "working_set s"
  let ?s0 = "setIsProcessing True s"
  let ?es = "concat (map (\<lambda>j. job_events en j (?p ! j) @ gap (length ?p) j) [0..<m])"
  obtain s' where s': "logged ?s0 ?es s'" "run_loop en ?p 0 ?s0 = run_loop en ?p m s'"
    using run_loop_prefix [of 0 m ?p en ?s0] assms(2,3) by auto
  have l0: "logged s ?es s'" using s'(1) by (simp add: logged_def)
  show ?thesis
  proof (cases "m = length ?p")
    case True
    then have "run_loop en ?p 0 ?s0 = Returns s'" using s'(2) by (simp add: run_loop_end)
    then have "logged s (?es @ []) (state_of (processBatch en s))" "is_returned (processBatch en s)"
      using l0 processBatch_state [OF assms(1), of en] by (simp_all add: logged_def)
    with True show ?thesis by blast
  next
    case False
    obtain rest where "logged s' rest (state_of (run_loop en ?p m s'))"
      using run_loop_rest [OF assms(2)] by blast
    with l0 have "logged s (?es @ rest) (state_of (run_loop en ?p m s'))" by (rule logged_trans)
    then have "logged s (?es @ rest) (state_of (processBatch en s))"
      using s'(2) processBatch_state [OF assms(1), of en] by (simp add: logged_def)
    with False show ?thesis by blast
  qed
qed

lemma classifiable_job: "classifiable en \<Longrightarrow> \<not> job_rejects en j af"
  by (simp add: classifiable_def job_rejects_eq)

lemma run_events_eq:
  assumes "\<not> isProcessing s" and "\<forall>j<length (working_set s). \<not> job_rejects en j (working_set s ! j)"
  shows "run_events en s =
           concat (map (\<lambda>j. job_events en j (working_set s ! j) @ gap (length (working_set s)) j)
                     [0..<length (working_set s)])"
    and "is_returned (processBatch en s)"
proof -
  obtain rest where "logged s
           (concat (map (\<lambda>j. job_events en j (working_set s ! j) @ gap (length (working_set s)) j)
                      [0..<length (working_set s)]) @ rest)
           (state_of (processBatch en s))" "rest = []" "is_returned (processBatch en s)"
    using processBatch_prefix [OF assms(1) le_refl, of en] assms(2) by blast
  then show "run_events en s =
           concat (map (\<lambda>j. job_events en j (working_set s ! j) @ gap (length (working_set s)) j)
                     [0..<length (working_set s)])"
    and "is_returned (processBatch en s)"
    by (simp_all add: run_events_def logged_def)
qed

section \<open>The events of a run, by job\<close>

lemma calls_facts [simp]:
  "E_sleep m \<notin> set (calls x oc)"
  "filter is_start (calls x oc) = []"
  by (cases oc; simp)+

lemma subject_calls: "e \<in> set (calls x oc) \<Longrightarrow> subject e = Some x"
  by (cases oc) auto

lemma verdict_facts [simp]:
  "E_sleep m \<notin> set (verdict x oc)"
  "filter is_start (verdict x oc) = []"
  by (cases oc; simp)+

lemma verdict_subject: "e \<in> set (verdict x oc) \<Longrightarrow> subject e = Some x \<and> is_terminal e"
  by (cases oc) (auto split: if_splits)

lemma verdict_cases:
  "verdict x oc = (if escapes oc then [] else [hd (verdict x oc)])"
  by (cases oc) (auto simp: escapes_def)

lemma attempts_facts:
  "E_sleep 1500 \<notin> set (attempts en i x k)"
  "filter is_start (attempts en i x k) = []"
  by (auto simp: attempts_def filter_concat comp_def)

lemma attempts_subject:
  "e \<in> set (attempts en i x k) \<Longrightarrow> subject e = Some y \<Longrightarrow> y = x"
  by (auto simp: attempts_def dest: subject_calls)

lemma job_events_starts: "filter is_start (job_events en j af) = [E_processing (id' af)]"
  by (simp add: job_events_eq attempts_facts)

lemma job_events_hd: "hd (job_events en j af) = E_processing (id' af)"
  by (simp add: job_events_eq)

lemma job_events_no_gap: "E_sleep 1500 \<notin> set (job_events en j af)"
  by (simp add: job_events_eq attempts_facts)

lemma job_events_subject:
  "e \<in> set (job_events en j af) \<Longrightarrow> subject e = Some x \<Longrightarrow> x = id' af"
  by (auto simp: job_events_eq dest: attempts_subject verdict_subject)

lemma job_events_last:
  assumes "\<not> job_rejects en j af"
  shows "is_terminal (last (job_events en j af)) \<and> subject (last (job_events en j af)) = Some (id' af)"
proof -
  let ?v = "verdict (id' af) (outcome en j (last_attempt en j))"
  have v: "?v = [hd ?v]"
    using assms verdict_cases [of "id' af" "outcome en j (last_attempt en j)"]
    by (simp add: job_rejects_eq)
  then have "hd ?v \<in> set ?v" by (metis list.set_intros(1))
  then have "subject (hd ?v) = Some (id' af) \<and> is_terminal (hd ?v)" by (rule verdict_subject)
  moreover have "last (job_events en j af) = hd ?v"
    by (subst job_events_eq, subst v) simp
  ultimately show ?thesis by simp
qed

lemma job_events_rejected:
  assumes "job_rejects en j af"
  shows "\<forall>e\<in>set (job_events en j af). \<not> is_terminal e"
proof -
  have "verdict (id' af) (outcome en j (last_attempt en j)) = []"
    using assms verdict_cases [of "id' af" "outcome en j (last_attempt en j)"]
    by (simp add: job_rejects_eq)
  moreover have "\<not> is_terminal e" if "e \<in> set (calls x oc)" for e x oc
    using that by (cases oc) auto
  ultimately show ?thesis
    by (auto simp: job_events_eq attempts_def)
qed

section \<open>Evaluating a run on an example\<close>

lemmas run_eval =
  processBatch_def queue_of_def running_def idle_job_def new_job_def is_pending_def
  run_loop.simps process_job_def attempt_loop.simps maxRetries_def
  Let_def await_def sleep_def update_job_def mark_processing_def mark_failed_def
  mark_completed_def error_label_def err_def isRateLimit_def give_up_def
  wav_def

lemmas outcome_eval =
  last_attempt_def last_from.simps maxRetries_def rate_limited_def escapes_def
  isRateLimit_def err_def error_label_def

section \<open>C1: the retry policy\<close>

text \<open>
  Claim C1 says that a failure that is not classified as a rate limit ends the retry loop
  and the job becomes Failed. The \<open>catch\<close> clause guards against an error without a
  message (\<open>error.message?.includes\<close>) but not against a caught value that is \<open>undefined\<close>:
  when the encoder rejects without a reason, the condition of line 120 throws inside the
  \<open>catch\<close> clause, the update of line 130 is never made, the job stays Processing and the
  exception leaves \<open>processBatch\<close>.
\<close>

theorem unclassified_failure_not_failed:
  "outcome env_no_reason 0 0 = EncodeThrows Nullish \<and>
   isRateLimit Nullish = None \<and>
   trace (state_of (processBatch env_no_reason (queue_of [idle_job ''a'' ''a.wav'']))) =
     [(0, E_processing ''a''), (0, E_fileToBase64 ''a'')] \<and>
   map status (files (state_of (processBatch env_no_reason (queue_of [idle_job ''a'' ''a.wav''])))) =
     [PROCESSING] \<and>
   \<not> is_returned (processBatch env_no_reason (queue_of [idle_job ''a'' ''a.wav'']))"
  by (simp add: run_eval env_no_reason_def)

lemma recorded_status: "\<not> escapes oc \<Longrightarrow> recorded oc f \<Longrightarrow> status f = final_status oc"
  by (cases oc) auto

lemma process_job_status:
  assumes "isProcessing s" and "id' af \<in> id' ` set (files s)" and "kept en (id' af)"
  shows "\<exists>f\<in>set (files (state_of (process_job en i af s))).
           id' f = id' af \<and> status f = final_status (outcome en i (last_attempt en i))"
proof -
  let ?oc = "outcome en i (last_attempt en i)"
  from assms(2) obtain p where p: "p \<in> set (files s)" "id' p = id' af" by auto
  then have "has (id' af) (same_job p) s"
    using assms(1) by (auto simp: has_def same_job_def)
  then have e: "ends (has (id' af) (\<lambda>f. same_job p f \<and> recorded ?oc f))
                  (has (id' af) (\<lambda>f. same_job p f \<and> status f = PROCESSING))
                  (process_job en i af s)"
    using assms(3) by (rule process_job_has_self) simp
  have esc: "is_returned (process_job en i af s) = (\<not> escapes ?oc)"
    by (simp add: process_job_returned job_rejects_eq)
  show ?thesis
  proof (cases "process_job en i af s")
    case (Returns s')
    with e esc have "has (id' af) (\<lambda>f. same_job p f \<and> recorded ?oc f) s'" "\<not> escapes ?oc"
      by simp_all
    then show ?thesis
      using Returns by (auto simp: has_def dest: recorded_status)
  next
    case (Rejects s')
    with e esc have "has (id' af) (\<lambda>f. same_job p f \<and> status f = PROCESSING) s'" "escapes ?oc"
      by simp_all
    moreover from \<open>escapes ?oc\<close> have "final_status ?oc = PROCESSING"
      by (cases ?oc) (simp_all add: escapes_def)
    ultimately show ?thesis
      using Rejects by (auto simp: has_def)
  qed
qed

lemma process_job_all_recorded:
  assumes "is_returned (process_job en i af s)"
    and "f \<in> set (files (state_of (process_job en i af s)))" and "id' f = id' af"
  shows "recorded (outcome en i (last_attempt en i)) f"
proof -
  let ?oc = "outcome en i (last_attempt en i)"
  obtain s' where s': "process_job en i af s = finish af ?oc s'"
    using process_job_runs [where J = "\<lambda>s. True"] by blast
  with assms(1) have "\<not> escapes ?oc" by simp
  then obtain m where m:
    "finish af ?oc s' = Returns (emit (hd (verdict (id' af) ?oc)) (setFiles (update_job (id' af) m) s'))"
    "\<forall>f. id' (m f) = id' f \<and> file' (m f) = file' f \<and> name (m f) = name f \<and>
          size' (m f) = size' f \<and> recorded ?oc (m f)"
    using finish_returns [of ?oc af s'] by blast
  with assms(2,3) s' show ?thesis
    by (auto simp: update_job_def split: if_splits)
qed

text \<open>
  The retry policy in general. Whatever the state \<open>s\<close> a job is taken up in, and whatever
  its attempts meet: the job makes \<open>n + 1\<close> attempts with \<open>n \<le> 2\<close>, so at most three (\<open>n\<close> is
  \<open>last_attempt en i\<close>). Each attempt before the last failed with an error that satisfies
  the rate-limit condition (its message has "429" or "RESOURCE_EXHAUSTED"), and the attempt
  numbered \<open>j + 1\<close> among them is followed by one sleep of \<open>(j + 1) * 5000\<close> milliseconds and
  then the next attempt. The run is suspended at each call and at each sleep: the ticks of
  the trace say that the attempt after a backoff starts one suspension after the sleep was
  begun. The last attempt is not rate-limited unless it is the third; it is followed at
  once, with no suspension, by the update that ends the loop, unless the value it threw is
  one on which the condition of line 120 throws: then no update follows and the exception
  leaves the loop. If the job is in the queue while a run is active and the user does not
  remove it, it is in the queue afterwards with the status the last attempt decides: Failed
  when it threw a value that line 120 can classify, Completed when it returned, Processing
  when the exception left the loop; and when the loop was left without an exception, every
  job of the queue with this identifier has that status.
\<close>

theorem retry_policy:
  "last_attempt en i \<le> 2 \<and>
   (\<forall>j<last_attempt en i. rate_limited (outcome en i j)) \<and>
   (rate_limited (outcome en i (last_attempt en i)) \<longrightarrow> last_attempt en i = 2) \<and>
   trace (state_of (process_job en i audioFile s)) =
     trace s @ stamp (tick s)
       (E_processing (id' audioFile) #
        concat (map (\<lambda>j. calls (id' audioFile) (outcome en i j) @ [E_sleep ((j + 1) * 5000)])
                  [0..<last_attempt en i]) @
        calls (id' audioFile) (outcome en i (last_attempt en i)) @
        verdict (id' audioFile) (outcome en i (last_attempt en i))) \<and>
   is_returned (process_job en i audioFile s) = (\<not> escapes (outcome en i (last_attempt en i))) \<and>
   (isProcessing s \<and> id' audioFile \<in> id' ` set (files s) \<and> kept en (id' audioFile) \<longrightarrow>
      (\<exists>f\<in>set (files (state_of (process_job en i audioFile s))).
         id' f = id' audioFile \<and> status f = final_status (outcome en i (last_attempt en i))) \<and>
      (is_returned (process_job en i audioFile s) \<longrightarrow>
         (\<forall>f\<in>set (files (state_of (process_job en i audioFile s))).
            id' f = id' audioFile \<longrightarrow> status f = final_status (outcome en i (last_attempt en i)))))"
proof (intro conjI impI ballI)
  show "last_attempt en i \<le> 2"
    using last_from_bounds [of 0 en i] by (simp add: last_attempt_def maxRetries_def)
  show "\<forall>j<last_attempt en i. rate_limited (outcome en i j)"
    using last_from_retried [of 0 _ en i] by (simp add: last_attempt_def)
  show "last_attempt en i = 2" if "rate_limited (outcome en i (last_attempt en i))"
    using last_from_stops [of en i 0] that by (simp add: last_attempt_def maxRetries_def)
  show "trace (state_of (process_job en i audioFile s)) =
     trace s @ stamp (tick s)
       (E_processing (id' audioFile) #
        concat (map (\<lambda>j. calls (id' audioFile) (outcome en i j) @ [E_sleep ((j + 1) * 5000)])
                  [0..<last_attempt en i]) @
        calls (id' audioFile) (outcome en i (last_attempt en i)) @
        verdict (id' audioFile) (outcome en i (last_attempt en i)))"
    using process_job_logged [of s audioFile en i]
    by (simp add: logged_def attempts_def last_attempt_def)
  show "is_returned (process_job en i audioFile s) = (\<not> escapes (outcome en i (last_attempt en i)))"
    by (simp add: process_job_returned job_rejects_eq)
  show "\<exists>f\<in>set (files (state_of (process_job en i audioFile s))).
         id' f = id' audioFile \<and> status f = final_status (outcome en i (last_attempt en i))"
    if "isProcessing s \<and> id' audioFile \<in> id' ` set (files s) \<and> kept en (id' audioFile)"
    using that by (intro process_job_status) auto
  show "status f = final_status (outcome en i (last_attempt en i))"
    if "is_returned (process_job en i audioFile s)"
      "f \<in> set (files (state_of (process_job en i audioFile s)))" "id' f = id' audioFile" for f
  proof -
    have "recorded (outcome en i (last_attempt en i)) f"
      using that by (rule process_job_all_recorded)
    moreover have "\<not> escapes (outcome en i (last_attempt en i))"
      using that(1) by (simp add: process_job_returned job_rejects_eq)
    ultimately show ?thesis by (simp add: recorded_status)
  qed
qed

theorem retry_policy_witness:
  "isProcessing (running [idle_job ''a'' ''a.wav'']) \<and>
   kept env_throttled_twice ''a'' \<and>
   last_attempt env_throttled_twice 0 = 2 \<and>
   trace (state_of (process_job env_throttled_twice 0 (idle_job ''a'' ''a.wav'')
                      (running [idle_job ''a'' ''a.wav'']))) =
     [(0, E_processing ''a''),
      (0, E_fileToBase64 ''a''), (1, E_analyzeAudioEmotion ''a''), (2, E_sleep 5000),
      (3, E_fileToBase64 ''a''), (4, E_analyzeAudioEmotion ''a''), (5, E_sleep 10000),
      (6, E_fileToBase64 ''a''), (7, E_analyzeAudioEmotion ''a''),
      (8, E_failed ''a'' label_analysis_failed)] \<and>
   map status (files (state_of (process_job env_throttled_twice 0 (idle_job ''a'' ''a.wav'')
                                  (running [idle_job ''a'' ''a.wav''])))) = [FAILED]"
proof -
  let ?en = env_throttled_twice
  let ?a = "idle_job ''a'' ''a.wav''"
  let ?r = "process_job ?en 0 ?a (running [?a])"
  have run: "isProcessing (running [?a])" by (simp add: running_def)
  have kept: "kept ?en ''a''" by (simp add: kept_def env_throttled_twice_def)
  have ida: "id' ?a = ''a''" by (simp add: idle_job_def new_job_def)
  have n: "last_attempt ?en 0 = 2"
    by (simp add: outcome_eval env_throttled_twice_def)
  have upt: "[0..<2] = [0, Suc 0]" by (simp add: upt_rec)
  have one: "length (files (state_of ?r)) = 1"
    by (simp add: run_eval env_throttled_twice_def)
  have ids: "map id' (files (state_of ?r)) = [''a'']"
    by (simp add: run_eval env_throttled_twice_def)
  have fs: "final_status (outcome ?en 0 2) = FAILED"
    by (simp add: env_throttled_twice_def outcome_eval)
  from retry_policy [of ?en 0 ?a "running [?a]"] run kept
  have tr: "trace (state_of ?r) =
     trace (running [?a]) @ stamp (tick (running [?a]))
       (E_processing (id' ?a) #
        concat (map (\<lambda>j. calls (id' ?a) (outcome ?en 0 j) @ [E_sleep ((j + 1) * 5000)])
                  [0..<last_attempt ?en 0]) @
        calls (id' ?a) (outcome ?en 0 (last_attempt ?en 0)) @
        verdict (id' ?a) (outcome ?en 0 (last_attempt ?en 0)))"
    and ex: "\<exists>f\<in>set (files (state_of ?r)).
         id' f = id' ?a \<and> status f = final_status (outcome ?en 0 (last_attempt ?en 0))"
    by (simp_all add: ida running_def)
  have "trace (state_of ?r) =
     [(0, E_processing ''a''),
      (0, E_fileToBase64 ''a''), (1, E_analyzeAudioEmotion ''a''), (2, E_sleep 5000),
      (3, E_fileToBase64 ''a''), (4, E_analyzeAudioEmotion ''a''), (5, E_sleep 10000),
      (6, E_fileToBase64 ''a''), (7, E_analyzeAudioEmotion ''a''),
      (8, E_failed ''a'' label_analysis_failed)]"
    unfolding tr n
    by (simp add: upt ida env_throttled_twice_def running_def outcome_eval)
  moreover have "map status (files (state_of ?r)) = [FAILED]"
  proof -
    from one obtain f where f: "files (state_of ?r) = [f]"
      by (cases "files (state_of ?r)") auto
    with ex n fs show ?thesis by simp
  qed
  ultimately show ?thesis using run kept n by simp
qed

section \<open>C3: the label of a job that is throttled three times\<close>

text \<open>
  Claim C3 asks for the rate-limit label on a job whose three attempts all fail with
  RESOURCE_EXHAUSTED. The retry condition of line 120 looks for both "429" and
  "RESOURCE_EXHAUSTED", the label of line 133 only for "429": on a service that answers
  RESOURCE_EXHAUSTED without "429" the job is retried twice with the two backoffs, as a
  rate-limited job is, and then labelled "analysis failed".
\<close>

theorem exhausted_gets_generic_label:
  "trace (state_of (processBatch env_exhausted (queue_of [idle_job ''a'' ''a.wav'']))) =
     [(0, E_processing ''a''),
      (0, E_fileToBase64 ''a''), (1, E_analyzeAudioEmotion ''a''), (2, E_sleep 5000),
      (3, E_fileToBase64 ''a''), (4, E_analyzeAudioEmotion ''a''), (5, E_sleep 10000),
      (6, E_fileToBase64 ''a''), (7, E_analyzeAudioEmotion ''a''),
      (8, E_failed ''a'' label_analysis_failed)] \<and>
   is_returned (processBatch env_exhausted (queue_of [idle_job ''a'' ''a.wav''])) \<and>
   map status (files (state_of (processBatch env_exhausted (queue_of [idle_job ''a'' ''a.wav''])))) =
     [FAILED] \<and>
   map error (files (state_of (processBatch env_exhausted (queue_of [idle_job ''a'' ''a.wav''])))) =
     [Some label_analysis_failed] \<and>
   label_analysis_failed \<noteq> label_rate_limit"
  by (simp add: run_eval env_exhausted_def label_analysis_failed_def label_rate_limit_def)

section \<open>C8: a failure of the encoder\<close>




section \<open>C6: the exported row\<close>

text \<open>
  Claim C6 asks that a double quote in any of the five fields be doubled, the file name
  included. Line 150 doubles the quotes of \<open>reasoning\<close> only; \<open>name\<close>, \<open>emotionType\<close> and
  \<open>voiceIdentity\<close> are written as they are. For an Idle job whose file is named
  \<open>my"take.wav\<close> the row has the four empty fields the claim describes, but the name is
  not the doubled one, however numbers are printed.
\<close>

theorem export_row_name_not_escaped:
  "\<forall>number_text.
     export_row number_text (idle_job ''a'' quote_name) =
       [dq] @ ''my'' @ [dq] @ ''take.wav'' @ [dq] @ '','' @
       [dq, dq] @ '','' @ [dq, dq] @ '','' @ [dq, dq] @ '','' @ [dq, dq] \<and>
     export_row number_text (idle_job ''a'' quote_name) \<noteq>
       quoted (double_quotes quote_name) @ '','' @
       [dq, dq] @ '','' @ [dq, dq] @ '','' @ [dq, dq] @ '','' @ [dq, dq] \<and>
     double_quotes quote_name = ''my'' @ [dq, dq] @ ''take.wav''"
  by (simp add: export_row_def idle_job_def new_job_def wav_def quote_name_def quoted_def
        string_or_empty_def number_or_empty_def double_quotes_def dq_def)

section \<open>C10: the reentrancy guard\<close>

lemma flag_set_since_run:
  "ends (flag_set_since s) (flag_set_since s) (run_loop en p 0 (setIsProcessing True s))"
proof (rule run_loop_any)
  show "flag_set_since s (setIsProcessing True s)"
    by (simp add: flag_set_since_def)
  show "flag_set_since s (setFiles g s')" if "flag_set_since s s'" for s' g
    using that by (auto simp: flag_set_since_def)
  show "flag_set_since s (s'\<lparr>tick := n\<rparr>)" if "flag_set_since s s'" for s' n
    using that by (simp add: flag_set_since_def)
  show "flag_set_since s (emit e s')" if "flag_set_since s s'" for s' e
    using that by (simp add: flag_set_since_def)
qed

text \<open>
  Claim C10. The flag read at line 89 is the current value of the \<open>isProcessing\<close> cell (React
  renders, and rebinds the handler, before it dispatches the next event). Called while the
  flag is set, \<open>processBatch\<close> returns with the state as it is: no job is selected, no
  update is made, no event is added to the trace, so no collaborator is called. A call that
  starts a run sets the flag first; every value of the state rendered after that has the
  flag set, up to the last one, by which the returning run clears it; when the run is left
  by an exception the flag is never cleared. So a call made anywhere between the start and
  the return of a run finds the flag set and does nothing: no second run starts while one
  is in flight.
\<close>

theorem reentrancy_guard:
  "(isProcessing s \<longrightarrow> processBatch en s = Returns s) \<and>
   (\<not> isProcessing s \<longrightarrow>
      (\<exists>mid. renders (state_of (processBatch en s)) =
                renders s @ (files s, True) # mid @
                (if is_returned (processBatch en s)
                 then [(files (state_of (processBatch en s)), False)] else []) \<and>
             (\<forall>r\<in>set mid. snd r)) \<and>
      isProcessing (state_of (processBatch en s)) = (\<not> is_returned (processBatch en s)))"
proof (intro conjI impI)
  assume "isProcessing s"
  then show "processBatch en s = Returns s" by (simp add: processBatch_def)
next
  assume idle: "\<not> isProcessing s"
  define r where "r = run_loop en (filter is_pending (files s)) 0 (setIsProcessing True s)"
  have fl: "flag_set_since s (state_of r)"
    using flag_set_since_run [of s en "filter is_pending (files s)"]
    unfolding r_def [symmetric] by (cases r) simp_all
  then obtain mid where mid: "renders (state_of r) = renders s @ (files s, True) # mid"
    "\<forall>r\<in>set mid. snd r" "isProcessing (state_of r)"
    by (auto simp: flag_set_since_def)
  have pb: "processBatch en s =
              (case r of Rejects s' \<Rightarrow> Rejects s' | Returns s' \<Rightarrow> Returns (setIsProcessing False s'))"
    using idle by (simp add: processBatch_def r_def)
  show "\<exists>mid. renders (state_of (processBatch en s)) =
                renders s @ (files s, True) # mid @
                (if is_returned (processBatch en s)
                 then [(files (state_of (processBatch en s)), False)] else []) \<and>
             (\<forall>r\<in>set mid. snd r)"
    using mid by (intro exI [of _ mid]) (cases r; simp add: pb)
  show "isProcessing (state_of (processBatch en s)) = (\<not> is_returned (processBatch en s))"
    using mid by (cases r; simp add: pb)
qed

theorem reentrancy_guard_witness:
  "isProcessing (setIsProcessing True three_idle) \<and>
   processBatch env_second_unreadable (setIsProcessing True three_idle) =
     Returns (setIsProcessing True three_idle) \<and>
   \<not> isProcessing three_idle \<and>
   is_returned (processBatch env_second_unreadable three_idle) \<and>
   map snd (renders (state_of (processBatch env_second_unreadable three_idle))) =
     [True, True, True, True, True, True, True, False]"
proof -
  have busy: "isProcessing (setIsProcessing True three_idle)" by simp
  have idle: "\<not> isProcessing three_idle" by (simp add: three_idle_def queue_of_def)
  have r: "map snd (renders (state_of (processBatch env_second_unreadable three_idle))) =
     [True, True, True, True, True, True, True, False]"
    "is_returned (processBatch env_second_unreadable three_idle)"
    by (simp_all add: run_eval env_second_unreadable_def three_idle_def)
  from reentrancy_guard [of "setIsProcessing True three_idle" env_second_unreadable] busy idle r
  show ?thesis by simp
qed

section \<open>What becomes of a selected job\<close>

lemma recorded_terminal: "recorded oc f \<Longrightarrow> status f = COMPLETED \<or> status f = FAILED"
  by (cases oc) auto

lemma has_sleep: "has y R s \<Longrightarrow> kept en y \<Longrightarrow> has y R (sleep en ms s)"
  unfolding sleep_def by (rule has_await) simp_all

lemma working_set_files: "j < length (working_set s) \<Longrightarrow> working_set s ! j \<in> set (files s)"
  using nth_mem [of j "working_set s"] by (simp add: working_set_def)

text \<open>
  The job at index \<open>j0\<close> of the working set, if the user does not remove it, is in the queue
  when the run is over, with what the terminal update of the last job with its identifier
  wrote.
\<close>

lemma processBatch_has:
  assumes idle: "\<not> isProcessing s" and j0: "j0 < length (working_set s)"
    and kept: "kept en (id' (working_set s ! j0))"
    and T: "\<And>j f. j0 \<le> j \<Longrightarrow> j < length (working_set s) \<Longrightarrow>
              id' (working_set s ! j) = id' (working_set s ! j0) \<Longrightarrow>
              recorded (outcome en j (last_attempt en j)) f \<Longrightarrow> T f"
  shows "ends (\<lambda>s'. \<exists>f\<in>set (files s'). same_job (working_set s ! j0) f \<and> T f)
              (\<lambda>s'. \<exists>f\<in>set (files s'). same_job (working_set s ! j0) f)
           (processBatch en s)"
proof -
  let ?p = "working_set s ! j0"
  let ?y = "id' ?p"
  let ?I = "\<lambda>j. has ?y (\<lambda>f. same_job ?p f \<and> (j0 < j \<longrightarrow> T f))"
  have "ends (\<lambda>s'. \<exists>f\<in>set (files s'). same_job ?p f \<and> T f) (has ?y (same_job ?p))
          (processBatch en s)"
    using idle
  proof (rule processBatch_rule [where I = ?I])
    show "?I 0 (setIsProcessing True s)"
      using working_set_files [OF j0] by (auto simp: has_def same_job_def)
    show "?I j (sleep en 1500 s')" if "?I j s'" for j s'
      using that kept by (rule has_sleep)
    show "\<exists>f\<in>set (files (setIsProcessing False s')). same_job ?p f \<and> T f"
      if "?I (length (filter is_pending (files s))) s'" for s'
      using that j0 by (auto simp: has_def working_set_def)
    show "ends (?I (Suc j)) (has ?y (same_job ?p))
            (process_job en j (filter is_pending (files s) ! j) s')"
      if j: "j < length (filter is_pending (files s))" and I: "?I j s'" for j s'
    proof (cases "id' (filter is_pending (files s) ! j) = ?y")
      case True
      have "has ?y (same_job ?p) s'"
        using I by (rule has_weaken) simp
      then have "ends (has ?y (\<lambda>f. same_job ?p f \<and> recorded (outcome en j (last_attempt en j)) f))
                   (has ?y (\<lambda>f. same_job ?p f \<and> status f = PROCESSING))
                   (process_job en j (filter is_pending (files s) ! j) s')"
        using kept True by (rule process_job_has_self)
      then show ?thesis
      proof (rule ends_mono)
        show "?I (Suc j) s''"
          if "has ?y (\<lambda>f. same_job ?p f \<and> recorded (outcome en j (last_attempt en j)) f) s''"
          for s''
          using that
        proof (rule has_weaken)
          show "same_job ?p f \<and> (j0 < Suc j \<longrightarrow> T f)"
            if "same_job ?p f \<and> recorded (outcome en j (last_attempt en j)) f" for f
            using that T [of j f] j True by (auto simp: working_set_def)
        qed
        show "has ?y (same_job ?p) s''"
          if "has ?y (\<lambda>f. same_job ?p f \<and> status f = PROCESSING) s''" for s''
          using that by (rule has_weaken) simp
      qed
    next
      case False
      then have "j \<noteq> j0" by (auto simp: working_set_def)
      have "ends (?I j) (?I j) (process_job en j (filter is_pending (files s) ! j) s')"
        using I kept False by (rule process_job_has_other)
      then show ?thesis
      proof (rule ends_mono)
        show "?I (Suc j) s''" if "?I j s''" for s''
          using that \<open>j \<noteq> j0\<close> by (auto simp: has_def)
        show "has ?y (same_job ?p) s''" if "?I j s''" for s''
          using that by (rule has_weaken) simp
      qed
    qed
  qed
  then show ?thesis
    by (rule ends_mono) (auto simp: has_def)
qed

lemma processBatch_terminal:
  assumes "\<not> isProcessing s" and "j < length (working_set s)"
    and "kept en (id' (working_set s ! j))"
  shows "ends (\<lambda>s'. \<exists>f\<in>set (files s'). same_job (working_set s ! j) f \<and>
                      (status f = COMPLETED \<or> status f = FAILED))
              (\<lambda>s'. \<exists>f\<in>set (files s'). same_job (working_set s ! j) f)
           (processBatch en s)"
  using assms
proof (rule processBatch_has)
  show "status f = COMPLETED \<or> status f = FAILED"
    if "recorded (outcome en j' (last_attempt en j')) f" for j' f
    using that by (rule recorded_terminal)
qed

section \<open>The events of a whole run\<close>

lemma run_events_logged:
  assumes "logged s es (state_of (processBatch en s))"
  shows "run_events en s = es"
  using assms by (simp add: run_events_def logged_def)

lemma run_subjects:
  assumes "\<not> isProcessing s" and "e \<in> set (run_events en s)" and "subject e = Some x"
  shows "x \<in> working_ids s"
proof -
  let ?I = "\<lambda>s'. \<exists>es. logged s es s' \<and> (\<forall>e\<in>set es. \<forall>x. subject e = Some x \<longrightarrow> x \<in> working_ids s)"
  have "ends ?I ?I (processBatch en s)"
    using assms(1)
  proof (rule processBatch_rule [where I = "\<lambda>j. ?I"])
    show "?I (setIsProcessing True s)"
      by (rule exI [of _ "[]"]) (simp add: logged_def)
    show "?I (sleep en 1500 s')" if "?I s'" for s'
    proof -
      from that obtain es where es: "logged s es s'"
        "\<forall>e\<in>set es. \<forall>x. subject e = Some x \<longrightarrow> x \<in> working_ids s" by blast
      have "logged s' [E_sleep 1500] (sleep en 1500 s')"
        by (simp add: logged_def suspensions_def)
      with es(1) have "logged s (es @ [E_sleep 1500]) (sleep en 1500 s')"
        by (rule logged_trans)
      with es(2) show ?thesis
        by (intro exI [of _ "es @ [E_sleep 1500]"]) auto
    qed
    show "?I (setIsProcessing False s')" if "?I s'" for s'
      using that by (simp add: logged_def)
    show "ends ?I ?I (process_job en j (filter is_pending (files s) ! j) s')"
      if j: "j < length (filter is_pending (files s))" and I: "?I s'" for j s'
    proof -
      let ?af = "filter is_pending (files s) ! j"
      from I obtain es where es: "logged s es s'"
        "\<forall>e\<in>set es. \<forall>x. subject e = Some x \<longrightarrow> x \<in> working_ids s" by blast
      have "logged s (es @ job_events en j ?af) (state_of (process_job en j ?af s'))"
        using es(1) process_job_events by (rule logged_trans)
      moreover have "id' ?af \<in> working_ids s"
        unfolding working_ids_def working_set_def using nth_mem [OF j] by (rule imageI)
      then have "\<forall>e\<in>set (es @ job_events en j ?af). \<forall>x. subject e = Some x \<longrightarrow> x \<in> working_ids s"
        using es(2) by (auto dest: job_events_subject)
      ultimately have "?I (state_of (process_job en j ?af s'))" by blast
      then show ?thesis
        by (cases "process_job en j ?af s'") simp_all
    qed
  qed
  then have "?I (state_of (processBatch en s))"
    by (rule ends_state)
  then obtain es where "logged s es (state_of (processBatch en s))"
    "\<forall>e\<in>set es. \<forall>x. subject e = Some x \<longrightarrow> x \<in> working_ids s" by blast
  with assms(2,3) show ?thesis
    by (auto simp: run_events_logged)
qed

lemma run_starts:
  assumes "\<not> isProcessing s" and "\<forall>j<length (working_set s). \<not> job_rejects en j (working_set s ! j)"
  shows "filter is_start (run_events en s) = map (\<lambda>p. E_processing (id' p)) (working_set s)"
proof -
  let ?p = "working_set s"
  have "filter is_start (run_events en s) =
          concat (map (\<lambda>j. [E_processing (id' (?p ! j))]) [0..<length ?p])"
    by (simp add: run_events_eq(1) [OF assms] filter_concat comp_def job_events_starts gap_def)
  also have "\<dots> = map (\<lambda>j. E_processing (id' (?p ! j))) [0..<length ?p]"
    by simp
  also have "\<dots> = map (\<lambda>p. E_processing (id' p)) (map (\<lambda>j. ?p ! j) [0..<length ?p])"
    by (simp add: comp_def)
  also have "\<dots> = map (\<lambda>p. E_processing (id' p)) ?p"
    by (simp add: map_nth)
  finally show ?thesis .
qed

lemma run_terminals:
  assumes "\<not> isProcessing s" and "\<forall>j<length (working_set s). \<not> job_rejects en j (working_set s ! j)"
    and "p \<in> set (working_set s)"
  shows "\<exists>e\<in>set (run_events en s). is_terminal e \<and> subject e = Some (id' p)"
proof -
  from assms(3) obtain j where j: "j < length (working_set s)" "working_set s ! j = p"
    by (auto simp: in_set_conv_nth)
  with assms(2) have nr: "\<not> job_rejects en j p" by auto
  have ne: "job_events en j p \<noteq> []" by (simp add: job_events_eq)
  then have "last (job_events en j p) \<in> set (job_events en j p)" by simp
  then have "last (job_events en j p) \<in> set (run_events en s)"
    unfolding run_events_eq(1) [OF assms(1,2)] using j by auto
  with job_events_last [OF nr] show ?thesis by blast
qed

section \<open>Jobs outside the working set\<close>

lemma outside_job:
  assumes "holds (outside en s0) (\<lambda>f. True) s" and "id' af \<in> working_ids s0"
  shows "ends (holds (outside en s0) (\<lambda>f. True)) (holds (outside en s0) (\<lambda>f. True))
           (process_job en i af s)"
proof (rule process_job_holds [where J = "outside en s0", OF assms(1)])
  show "outside en s0 (if id' f = id' af then mark_processing f else f)"
    if "outside en s0 f" for f
    using that assms(2) by (simp add: outside_def)
  show "outside en s0 (new_job (formatFileSize en) q)"
    if "AddFiles (Some ps) \<in> set (user en t)" "q \<in> set ps" for t ps q
    unfolding outside_def untouched_def using that by blast
  show "outside en s0 (if id' f = id' af then mark_completed r f else f)"
    if "outside en s0 f" for f r
    using that assms(2) by (simp add: outside_def)
  show "outside en s0 (if id' f = id' af then mark_failed e f else f)"
    if "outside en s0 f" for f e
    using that assms(2) by (simp add: outside_def)
qed simp_all

lemma outside_run:
  assumes "\<not> isProcessing s"
  shows "holds (outside en s) (\<lambda>f. True) (state_of (processBatch en s))"
proof -
  have "holds (outside en s) (\<lambda>f. True) s"
    by (simp add: holds_def outside_def untouched_def)
  then have "ends (holds (outside en s) (\<lambda>f. True)) (holds (outside en s) (\<lambda>f. True))
               (processBatch en s)"
    using assms
  proof (rule processBatch_holds [where P = "\<lambda>j. outside en s"])
    show "ends (holds (outside en s) (\<lambda>f. True)) (holds (outside en s) (\<lambda>f. True))
            (process_job en j (filter is_pending (files s) ! j) s')"
      if "j < length (filter is_pending (files s))" "holds (outside en s) (\<lambda>f. True) s'" for j s'
      using that(2)
    proof (rule outside_job)
      show "id' (filter is_pending (files s) ! j) \<in> working_ids s"
        unfolding working_ids_def working_set_def using nth_mem [OF that(1)] by (rule imageI)
    qed
    show "outside en s (new_job (formatFileSize en) q)"
      if "AddFiles (Some ps) \<in> set (user en t)" "q \<in> set ps" for t ps q
      unfolding outside_def untouched_def using that by blast
  qed simp_all
  then show ?thesis by (rule ends_state)
qed

lemma completed_outside:
  assumes "distinct (map id' (files s))" and "f \<in> set (files s)" and "status f = COMPLETED"
  shows "id' f \<notin> working_ids s"
proof
  assume "id' f \<in> working_ids s"
  then obtain q where q: "q \<in> set (files s)" "is_pending q" "id' q = id' f"
    by (auto simp: working_ids_def working_set_def)
  with assms(1,2) have "q = f" by (metis distinct_map inj_onD)
  with q assms(3) show False by (simp add: is_pending_def)
qed

text \<open>A job whose identifier is not one of the working set stays as it is.\<close>

lemma processBatch_keeps:
  assumes idle: "\<not> isProcessing s" and f: "f \<in> set (files s)" "id' f \<notin> working_ids s"
    and kept: "kept en (id' f)"
  shows "f \<in> set (files (state_of (processBatch en s)))"
proof -
  let ?I = "has (id' f) (\<lambda>g. g = f)"
  have "ends (\<lambda>s'. f \<in> set (files s')) ?I (processBatch en s)"
    using idle
  proof (rule processBatch_rule [where I = "\<lambda>j. ?I"])
    show "?I (setIsProcessing True s)"
      using f(1) by (auto simp: has_def)
    show "?I (sleep en 1500 s')" if "?I s'" for s'
      using that kept by (rule has_sleep)
    show "f \<in> set (files (setIsProcessing False s'))" if "?I s'" for s'
      using that by (auto simp: has_def)
    show "ends ?I ?I (process_job en j (filter is_pending (files s) ! j) s')"
      if j: "j < length (filter is_pending (files s))" and I: "?I s'" for j s'
      using I kept
    proof (rule process_job_has_other)
      have "id' (filter is_pending (files s) ! j) \<in> working_ids s"
        unfolding working_ids_def working_set_def using nth_mem [OF j] by (rule imageI)
      with f(2) show "id' (filter is_pending (files s) ! j) \<noteq> id' f" by auto
    qed
  qed
  then show ?thesis
    by (rule ends_state) (auto simp: has_def)
qed

lemma distinct_working_set:
  assumes "distinct (map id' (files s))" and "j < length (working_set s)" and "k < length (working_set s)"
    and "id' (working_set s ! j) = id' (working_set s ! k)"
  shows "j = k"
proof -
  have "distinct (map id' (working_set s))"
    unfolding working_set_def using assms(1) by (rule distinct_map_filter)
  moreover have "map id' (working_set s) ! j = map id' (working_set s) ! k"
    using assms(2-4) by simp
  ultimately show ?thesis
    using assms(2,3) by (simp add: nth_eq_iff_index_eq del: nth_map)
qed

section \<open>C9: the pause between jobs\<close>

text \<open>
  Claim C9. Take a run that starts, and the first \<open>m\<close> jobs of its working set, none of them
  left by an exception. The trace of the run begins with the events of these jobs, job
  after job in the order of the working set, with one sleep of 1500 milliseconds after the
  events of each job that is not the last of the working set, and nothing after the events
  of the last: when \<open>m\<close> is the whole working set these are all the events, and the run
  returns. The events of a job begin with its update to Processing, end with its terminal
  update (Completed or Failed, whichever it is) and contain no sleep of 1500 milliseconds.
  The ticks say when things happen: the pause is begun at the tick of the terminal update,
  with no suspension between the two, and the run is suspended in it, so that the update to
  Processing of the next job bears the next tick. The terminal updates are updates of the
  queue: when the run returns, every job of the working set that the user did not remove
  is in the queue, Completed or Failed.
\<close>

theorem inter_job_delay:
  assumes "\<not> isProcessing s" and "m \<le> length (working_set s)"
    and "\<forall>j<m. \<not> job_rejects en j (working_set s ! j)"
  shows "(\<exists>rest.
            trace (state_of (processBatch en s)) =
              trace s @ stamp (tick s)
                (concat (map (\<lambda>j. job_events en j (working_set s ! j) @
                                (if j + 1 < length (working_set s) then [E_sleep 1500] else []))
                           [0..<m]) @ rest) \<and>
            (m = length (working_set s) \<longrightarrow> rest = [] \<and> is_returned (processBatch en s))) \<and>
         (\<forall>j audioFile.
            hd (job_events en j audioFile) = E_processing (id' audioFile) \<and>
            E_sleep 1500 \<notin> set (job_events en j audioFile) \<and>
            (\<not> job_rejects en j audioFile \<longrightarrow>
               is_terminal (last (job_events en j audioFile)) \<and>
               subject (last (job_events en j audioFile)) = Some (id' audioFile))) \<and>
         (is_returned (processBatch en s) \<longrightarrow>
            (\<forall>j<length (working_set s). kept en (id' (working_set s ! j)) \<longrightarrow>
               (\<exists>f\<in>set (files (state_of (processBatch en s))).
                  same_job (working_set s ! j) f \<and>
                  (status f = COMPLETED \<or> status f = FAILED))))"
proof -
  obtain rest where
    "logged s (concat (map (\<lambda>j. job_events en j (working_set s ! j) @ gap (length (working_set s)) j)
                         [0..<m]) @ rest)
       (state_of (processBatch en s))"
    "m = length (working_set s) \<longrightarrow> rest = [] \<and> is_returned (processBatch en s)"
    using processBatch_prefix [OF assms] by blast
  then have "\<exists>rest.
            trace (state_of (processBatch en s)) =
              trace s @ stamp (tick s)
                (concat (map (\<lambda>j. job_events en j (working_set s ! j) @
                                (if j + 1 < length (working_set s) then [E_sleep 1500] else []))
                           [0..<m]) @ rest) \<and>
            (m = length (working_set s) \<longrightarrow> rest = [] \<and> is_returned (processBatch en s))"
    by (intro exI [of _ rest]) (simp add: logged_def gap_def)
  moreover have "\<exists>f\<in>set (files (state_of (processBatch en s))).
          same_job (working_set s ! j) f \<and> (status f = COMPLETED \<or> status f = FAILED)"
    if ret: "is_returned (processBatch en s)" and j: "j < length (working_set s)"
      and k: "kept en (id' (working_set s ! j))" for j
    using ret processBatch_terminal [OF assms(1) j k]
    by (cases "processBatch en s") simp_all
  ultimately show ?thesis
    using job_events_no_gap job_events_last job_events_hd by simp
qed

theorem inter_job_delay_witness:
  "\<not> isProcessing three_idle \<and>
   length (working_set three_idle) = 3 \<and>
   \<not> job_rejects env_second_unreadable 0 (working_set three_idle ! 0) \<and>
   \<not> job_rejects env_second_unreadable 1 (working_set three_idle ! 1) \<and>
   \<not> job_rejects env_second_unreadable 2 (working_set three_idle ! 2) \<and>
   trace (state_of (processBatch env_second_unreadable three_idle)) =
     [(0, E_processing ''a''), (0, E_fileToBase64 ''a''), (1, E_analyzeAudioEmotion ''a''),
      (2, E_completed ''a'' calm),
      (2, E_sleep 1500),
      (3, E_processing ''b''), (3, E_fileToBase64 ''b''), (4, E_failed ''b'' label_analysis_failed),
      (4, E_sleep 1500),
      (5, E_processing ''c''), (5, E_fileToBase64 ''c''), (6, E_analyzeAudioEmotion ''c''),
      (7, E_completed ''c'' calm)] \<and>
   is_returned (processBatch env_second_unreadable three_idle) \<and>
   map status (files (state_of (processBatch env_second_unreadable three_idle))) =
     [COMPLETED, FAILED, COMPLETED]"
proof -
  let ?en = env_second_unreadable
  have idle: "\<not> isProcessing three_idle"
    by (simp add: three_idle_def queue_of_def)
  have p: "working_set three_idle =
             [idle_job ''a'' ''a.wav'', idle_job ''b'' ''b.wav'', idle_job ''c'' ''c.wav'']"
    by (simp add: working_set_def three_idle_def queue_of_def is_pending_def idle_job_def new_job_def)
  have upt: "[0..<3] = [0, Suc 0, Suc (Suc 0)]" by (simp add: upt_rec)
  have la: "last_attempt ?en j = 0" for j
    by (simp add: outcome_eval env_second_unreadable_def)
  have rj: "\<not> job_rejects ?en j af" for j af
    by (simp add: job_rejects_eq la) (simp add: env_second_unreadable_def outcome_eval)
  have ev: "job_events ?en 0 (idle_job ''a'' ''a.wav'') =
              [E_processing ''a'', E_fileToBase64 ''a'', E_analyzeAudioEmotion ''a'', E_completed ''a'' calm]"
    "job_events ?en (Suc 0) (idle_job ''b'' ''b.wav'') =
              [E_processing ''b'', E_fileToBase64 ''b'', E_failed ''b'' label_analysis_failed]"
    "job_events ?en (Suc (Suc 0)) (idle_job ''c'' ''c.wav'') =
              [E_processing ''c'', E_fileToBase64 ''c'', E_analyzeAudioEmotion ''c'', E_completed ''c'' calm]"
    by (simp_all add: job_events_eq attempts_def la [unfolded last_attempt_def] la)
       (simp_all add: env_second_unreadable_def idle_job_def new_job_def outcome_eval)
  have st: "trace three_idle = []" "tick three_idle = 0"
    by (simp_all add: three_idle_def queue_of_def)
  have "\<forall>j<3. \<not> job_rejects ?en j (working_set three_idle ! j)"
    using rj by simp
  moreover have "map status (files (state_of (processBatch ?en three_idle))) =
                   [COMPLETED, FAILED, COMPLETED]"
    by (simp add: run_eval env_second_unreadable_def three_idle_def)
  ultimately show ?thesis
    using inter_job_delay [of three_idle 3 ?en] idle rj
    by (simp add: p upt ev st)
qed

section \<open>C2: what a run selects and what it leaves alone\<close>

text \<open>
  Claim C2 as stated fails. The updates address a job by its identifier, and nothing in the
  code keeps two jobs from having the same one (\<open>Math.random\<close> draws them): when a Completed
  job shares its identifier with an Idle one, the run of the Idle job rewrites the result
  fields of the Completed job too. Nor is every job that was Idle at the start touched:
  when an exception has left the run before its turn (here the encoder rejects without a
  reason for the job \<open>b\<close>), the job \<open>c\<close> stays Idle.
\<close>

theorem completed_job_rewritten:
  "map status (files shared_id) = [COMPLETED, IDLE] \<and>
   map emotionType (files shared_id) = [Some ''calm'', None] \<and>
   is_returned (processBatch env_loud shared_id) \<and>
   map emotionType (files (state_of (processBatch env_loud shared_id))) =
     [Some ''anger'', Some ''anger''] \<and>
   map status (files one_done) = [COMPLETED, IDLE, IDLE] \<and>
   \<not> is_returned (processBatch env_no_reason one_done) \<and>
   map status (files (state_of (processBatch env_no_reason one_done))) =
     [COMPLETED, PROCESSING, IDLE] \<and>
   trace (state_of (processBatch env_no_reason one_done)) =
     [(0, E_processing ''b''), (0, E_fileToBase64 ''b'')]"
  by (simp add: run_eval shared_id_def one_done_def env_loud_def env_no_reason_def
        loud_def calm_def)

text \<open>
  Claim C2, amended. Let a run start on a queue whose identifiers are distinct. Every event
  of the run that is about a job is about one of the jobs that were Idle or Failed at the
  start, so no collaborator is called and no update is made for any other identifier,
  whatever the user appends meanwhile. Every job of the queue the run leaves whose
  identifier is not one of the working set is a job of the starting queue as it was, or a
  job the user appended meanwhile as \<open>handleFileChange\<close> built it (Idle, no results). A job
  that was Completed at the start is outside the working set, and unless the user removes
  it, it is in the queue the run leaves with every field as it was. If moreover no attempt
  throws a value on which the condition of line 120 throws, the run returns; its updates to
  Processing are, in this order, those of the jobs that were Idle or Failed at the start,
  in queue order; and each of these jobs that the user does not remove is in the queue the
  run leaves, with the status and the fields that the terminal update after its last
  attempt writes.
\<close>

theorem run_frame:
  assumes "\<not> isProcessing s" and "distinct (map id' (files s))"
  shows "(\<forall>e\<in>set (run_events en s). \<forall>x. subject e = Some x \<longrightarrow> x \<in> working_ids s) \<and>
         (\<forall>f\<in>set (files (state_of (processBatch en s))).
            id' f \<notin> working_ids s \<longrightarrow> untouched en s f) \<and>
         (\<forall>f\<in>set (files s). status f = COMPLETED \<longrightarrow>
            id' f \<notin> working_ids s \<and>
            (kept en (id' f) \<longrightarrow> f \<in> set (files (state_of (processBatch en s))))) \<and>
         (classifiable en \<longrightarrow>
            is_returned (processBatch en s) \<and>
            filter is_start (run_events en s) =
              map (\<lambda>p. E_processing (id' p)) (working_set s) \<and>
            (\<forall>j<length (working_set s). kept en (id' (working_set s ! j)) \<longrightarrow>
               (\<exists>f\<in>set (files (state_of (processBatch en s))).
                  same_job (working_set s ! j) f \<and>
                  recorded (outcome en j (last_attempt en j)) f)))"
proof (intro conjI ballI allI impI)
  show "x \<in> working_ids s" if "e \<in> set (run_events en s)" "subject e = Some x" for e x
    using assms(1) that by (rule run_subjects)
  show "untouched en s f"
    if "f \<in> set (files (state_of (processBatch en s)))" "id' f \<notin> working_ids s" for f
    using outside_run [OF assms(1), of en] that by (simp add: holds_def outside_def)
  show "id' f \<notin> working_ids s" if "f \<in> set (files s)" "status f = COMPLETED" for f
    using assms(2) that by (rule completed_outside)
  show "f \<in> set (files (state_of (processBatch en s)))"
    if "f \<in> set (files s)" "status f = COMPLETED" "kept en (id' f)" for f
    using assms(1) that(1) completed_outside [OF assms(2) that(1,2)] that(3)
    by (rule processBatch_keeps)
next
  assume c: "classifiable en"
  then have nr: "\<forall>j<length (working_set s). \<not> job_rejects en j (working_set s ! j)"
    by (simp add: classifiable_job)
  show ret: "is_returned (processBatch en s)"
    using assms(1) nr by (rule run_events_eq(2))
  show "filter is_start (run_events en s) = map (\<lambda>p. E_processing (id' p)) (working_set s)"
    using assms(1) nr by (rule run_starts)
  show "\<exists>f\<in>set (files (state_of (processBatch en s))).
          same_job (working_set s ! j) f \<and> recorded (outcome en j (last_attempt en j)) f"
    if j: "j < length (working_set s)" and k: "kept en (id' (working_set s ! j))" for j
  proof -
    have "ends (\<lambda>s'. \<exists>f\<in>set (files s'). same_job (working_set s ! j) f \<and>
                         recorded (outcome en j (last_attempt en j)) f)
               (\<lambda>s'. \<exists>f\<in>set (files s'). same_job (working_set s ! j) f)
            (processBatch en s)"
      using assms(1) j k
    proof (rule processBatch_has)
      show "recorded (outcome en j (last_attempt en j)) f"
        if "j' < length (working_set s)" "id' (working_set s ! j') = id' (working_set s ! j)"
          "recorded (outcome en j' (last_attempt en j')) f" for j' f
        using that distinct_working_set [OF assms(2) that(1) j that(2)] by simp
    qed
    with ret show ?thesis
      by (cases "processBatch en s") simp_all
  qed
qed

theorem run_frame_witness:
  "\<not> isProcessing one_done \<and> distinct (map id' (files one_done)) \<and>
   classifiable env_adds_file \<and> kept env_adds_file ''a'' \<and>
   is_returned (processBatch env_adds_file one_done) \<and>
   filter is_start (run_events env_adds_file one_done) = [E_processing ''b'', E_processing ''c''] \<and>
   mark_completed calm (idle_job ''a'' ''a.wav'')
     \<in> set (files (state_of (processBatch env_adds_file one_done))) \<and>
   map id' (files (state_of (processBatch env_adds_file one_done))) = [''a'', ''b'', ''c'', ''d''] \<and>
   map status (files (state_of (processBatch env_adds_file one_done))) =
     [COMPLETED, COMPLETED, FAILED, IDLE] \<and>
   map emotionLevel (files (state_of (processBatch env_adds_file one_done))) =
     [Some 3, Some 3, None, None]"
proof -
  let ?a = "mark_completed calm (idle_job ''a'' ''a.wav'')"
  let ?en = env_adds_file
  have idle: "\<not> isProcessing one_done" by (simp add: one_done_def queue_of_def)
  have d: "distinct (map id' (files one_done))"
    by (simp add: one_done_def queue_of_def idle_job_def new_job_def mark_completed_def)
  have c: "classifiable ?en"
    by (simp add: classifiable_def env_adds_file_def escapes_def isRateLimit_def)
  have ws: "working_set one_done = [idle_job ''b'' ''b.wav'', idle_job ''c'' ''c.wav'']"
    by (simp add: working_set_def one_done_def queue_of_def is_pending_def idle_job_def
          new_job_def mark_completed_def)
  have a: "?a \<in> set (files one_done)" "status ?a = COMPLETED"
    by (simp_all add: one_done_def queue_of_def mark_completed_def)
  have keep: "kept ?en ''a''" "kept ?en (id' ?a)"
    by (simp_all add: kept_def env_adds_file_def mark_completed_def idle_job_def new_job_def)
  have ev: "map id' (files (state_of (processBatch ?en one_done))) = [''a'', ''b'', ''c'', ''d'']"
    "map status (files (state_of (processBatch ?en one_done))) = [COMPLETED, COMPLETED, FAILED, IDLE]"
    "map emotionLevel (files (state_of (processBatch ?en one_done))) = [Some 3, Some 3, None, None]"
    by (simp_all add: run_eval env_adds_file_def one_done_def calm_def handleFileChange_def)
  from run_frame [OF idle d, of ?en] a keep c
  have "filter is_start (run_events ?en one_done) =
          map (\<lambda>p. E_processing (id' p)) (working_set one_done)"
    and "?a \<in> set (files (state_of (processBatch ?en one_done)))"
    and "is_returned (processBatch ?en one_done)"
    by blast+
  then show ?thesis
    using idle d c keep ev by (simp add: ws idle_job_def new_job_def)
qed

section \<open>C4: the exceptions of the attempts\<close>

text \<open>
  Claim C4 says that no exception thrown by an attempt escapes the run loop or keeps the
  remaining jobs from being processed. The attempts are wrapped in \<open>try\<close>, but the condition
  of line 120 reads \<open>error.message\<close> inside the \<open>catch\<close> clause, where no handler encloses
  it, and it guards against an error without a message only. When the value caught is
  \<open>undefined\<close> (here: the encoder rejects without a reason) the condition throws, the
  exception leaves the run loop and \<open>processBatch\<close>: the job is left Processing, the two jobs
  after it are not processed, line 144 is not reached and the flag stays set.
\<close>

theorem exception_escapes_run:
  "outcome env_no_reason 0 0 = EncodeThrows Nullish \<and>
   \<not> is_returned (processBatch env_no_reason three_idle) \<and>
   isProcessing (state_of (processBatch env_no_reason three_idle)) \<and>
   map status (files (state_of (processBatch env_no_reason three_idle))) =
     [PROCESSING, IDLE, IDLE] \<and>
   trace (state_of (processBatch env_no_reason three_idle)) =
     [(0, E_processing ''a''), (0, E_fileToBase64 ''a'')]"
  by (simp add: run_eval three_idle_def env_no_reason_def)

text \<open>
  What a run does otherwise. Take a run that starts. If it returns, the flag is cleared,
  and every job of the working set that the user did not remove is in the queue (the job
  with its identifier, file, name and size) with the status Completed or Failed. If no
  attempt throws a value on which the condition of line 120 throws (every thrown value is
  an object or a primitive whose message is a string or absent), then the run does return,
  whatever the attempts throw otherwise, and for every job of the working set the run has
  made a terminal update.
\<close>

theorem run_completes:
  assumes "\<not> isProcessing s"
  shows "(is_returned (processBatch en s) \<longrightarrow>
            \<not> isProcessing (state_of (processBatch en s)) \<and>
            (\<forall>j<length (working_set s). kept en (id' (working_set s ! j)) \<longrightarrow>
               (\<exists>f\<in>set (files (state_of (processBatch en s))).
                  same_job (working_set s ! j) f \<and>
                  (status f = COMPLETED \<or> status f = FAILED)))) \<and>
         (classifiable en \<longrightarrow>
            is_returned (processBatch en s) \<and>
            (\<forall>p\<in>set (working_set s).
               \<exists>e\<in>set (run_events en s). is_terminal e \<and> subject e = Some (id' p)))"
proof (intro conjI ballI allI impI)
  assume ret: "is_returned (processBatch en s)"
  show "\<not> isProcessing (state_of (processBatch en s))"
    using ret assms
    by (cases "run_loop en (filter is_pending (files s)) 0 (setIsProcessing True s)")
       (simp_all add: processBatch_def)
  show "\<exists>f\<in>set (files (state_of (processBatch en s))).
          same_job (working_set s ! j) f \<and> (status f = COMPLETED \<or> status f = FAILED)"
    if j: "j < length (working_set s)" and k: "kept en (id' (working_set s ! j))" for j
  proof -
    have "ends (\<lambda>s'. \<exists>f\<in>set (files s'). same_job (working_set s ! j) f \<and>
                         (status f = COMPLETED \<or> status f = FAILED))
               (\<lambda>s'. \<exists>f\<in>set (files s'). same_job (working_set s ! j) f)
            (processBatch en s)"
      using assms j k
    proof (rule processBatch_has)
      show "status f = COMPLETED \<or> status f = FAILED"
        if "recorded (outcome en j' (last_attempt en j')) f" for j' f
        using that by (rule recorded_terminal)
    qed
    with ret show ?thesis
      by (cases "processBatch en s") simp_all
  qed
next
  assume c: "classifiable en"
  then have nr: "\<forall>j<length (working_set s). \<not> job_rejects en j (working_set s ! j)"
    by (simp add: classifiable_job)
  show "is_returned (processBatch en s)"
    using assms nr by (rule run_events_eq(2))
  show "\<exists>e\<in>set (run_events en s). is_terminal e \<and> subject e = Some (id' p)"
    if "p \<in> set (working_set s)" for p
    using assms nr that by (rule run_terminals)
qed

theorem run_completes_witness:
  "\<not> isProcessing three_idle \<and> classifiable env_busy_user \<and>
   kept env_busy_user ''a'' \<and> kept env_busy_user ''b'' \<and>
   is_returned (processBatch env_busy_user three_idle) \<and>
   \<not> isProcessing (state_of (processBatch env_busy_user three_idle)) \<and>
   map id' (files (state_of (processBatch env_busy_user three_idle))) = [''a'', ''b'', ''d''] \<and>
   map status (files (state_of (processBatch env_busy_user three_idle))) =
     [COMPLETED, FAILED, IDLE]"
proof -
  let ?en = env_busy_user
  have idle: "\<not> isProcessing three_idle" by (simp add: three_idle_def queue_of_def)
  have c: "classifiable ?en"
    by (simp add: classifiable_def env_busy_user_def escapes_def isRateLimit_def)
  have keep: "kept ?en ''a''" "kept ?en ''b''"
    by (simp_all add: kept_def env_busy_user_def)
  have ev: "map id' (files (state_of (processBatch ?en three_idle))) = [''a'', ''b'', ''d'']"
    "map status (files (state_of (processBatch ?en three_idle))) = [COMPLETED, FAILED, IDLE]"
    by (simp_all add: run_eval env_busy_user_def three_idle_def calm_def handleFileChange_def
          removeFile_def)
  from run_completes [OF idle, of ?en] c
  have "is_returned (processBatch ?en three_idle)"
    "\<not> isProcessing (state_of (processBatch ?en three_idle))"
    by blast+
  then show ?thesis
    using idle c keep ev by simp
qed

section \<open>C5: the invariant of the data model\<close>

text \<open>
  Claim C5 as stated fails for the status transitions of a run, in two ways. The result is
  the parsed response, cast to \<open>AnalysisResult\<close> without a look at it: when the service
  answers \<open>{}\<close> the job becomes Completed with none of the four fields. And the updates
  address a job by its identifier: when a Completed job shares it with an Idle one and the
  run of the Idle job fails, the Completed job becomes Failed too and keeps its four
  fields.
\<close>

theorem invariant_broken:
  "holds job_inv job_inv (queue_of [idle_job ''a'' ''a.wav'']) \<and>
   map status (files (state_of (processBatch env_empty_object (queue_of [idle_job ''a'' ''a.wav''])))) =
     [COMPLETED] \<and>
   map emotionType (files (state_of (processBatch env_empty_object (queue_of [idle_job ''a'' ''a.wav''])))) =
     [None] \<and>
   \<not> holds job_inv job_inv (state_of (processBatch env_empty_object (queue_of [idle_job ''a'' ''a.wav'']))) \<and>
   holds job_inv job_inv shared_id \<and>
   map status (files (state_of (processBatch env_down shared_id))) = [FAILED, FAILED] \<and>
   map emotionType (files (state_of (processBatch env_down shared_id))) = [Some ''calm'', None] \<and>
   \<not> holds job_inv job_inv (state_of (processBatch env_down shared_id))"
  by (simp add: run_eval shared_id_def env_empty_object_def empty_object_def env_down_def
        calm_def holds_def job_inv_def has_results_def no_results_def)

lemma later_ids:
  assumes "distinct (map id' p)" and "j < length p"
  shows "id' (p ! j) \<notin> id' ` set (drop (Suc j) p)"
proof
  assume "id' (p ! j) \<in> id' ` set (drop (Suc j) p)"
  then obtain q where q: "q \<in> set (drop (Suc j) p)" "id' q = id' (p ! j)" by auto
  then obtain k where k: "k < length (drop (Suc j) p)" "q = drop (Suc j) p ! k"
    by (auto simp: in_set_conv_nth)
  then have "Suc j + k < length p" "q = p ! (Suc j + k)" by auto
  then have "map id' p ! (Suc j + k) = map id' p ! j" using q assms(2) by simp
  with assms \<open>Suc j + k < length p\<close> show False
    by (simp add: nth_eq_iff_index_eq del: nth_map)
qed

lemma current_id: "j < length p \<Longrightarrow> id' (p ! j) \<in> id' ` set (drop j p)"
  by (metis Cons_nth_drop_Suc imageI list.set_intros(1))

lemma drop_Suc_subset: "set (drop (Suc j) p) \<subseteq> set (drop j p)"
  by (rule set_drop_subset_set_drop) simp

lemma job_inv_new [simp]: "job_inv (new_job fmt q)"
  by (simp add: job_inv_def new_job_def no_results_def)

lemma job_inv_job:
  assumes "holds (waiting p j) job_inv s" and "j < length p" and "distinct (map id' p)"
    and "results_complete en"
  shows "ends (holds (waiting p (Suc j)) job_inv) (holds (in_progress p j) job_inv)
           (process_job en j (p ! j) s)"
proof (rule process_job_holds [where J = "in_progress p j", OF assms(1)])
  show "in_progress p j (if id' f = id' (p ! j) then mark_processing f else f)"
    if "waiting p j f" for f
    using that current_id [OF assms(2)] drop_Suc_subset [of j p]
    by (auto simp: waiting_def in_progress_def job_inv_def mark_processing_def
          no_results_def has_results_def)
  show "job_inv f" if "in_progress p j f" for f
    using that by (simp add: in_progress_def)
  show "in_progress p j (new_job (formatFileSize en) q)" for q
    by (simp add: in_progress_def) (simp add: new_job_def)
  show "waiting p (Suc j) (if id' f = id' (p ! j) then mark_completed r f else f)"
    if "in_progress p j f" "outcome en j (last_attempt en j) = InferReturns r" for f r
  proof -
    have "complete r" using assms(4) that(2) by (auto simp: results_complete_def)
    then show ?thesis
      using that(1) later_ids [OF assms(3,2)]
      by (auto simp: waiting_def in_progress_def job_inv_def mark_completed_def
            no_results_def has_results_def complete_def)
  qed
  show "waiting p (Suc j) (if id' f = id' (p ! j) then mark_failed e f else f)"
    if "in_progress p j f" for f e
    using that later_ids [OF assms(3,2)]
    by (auto simp: waiting_def in_progress_def job_inv_def mark_failed_def
          no_results_def has_results_def)
  show "job_inv f" if "waiting p (Suc j) f" for f
    using that by (simp add: waiting_def)
qed

lemma job_inv_run:
  assumes "holds job_inv job_inv s" and "\<not> isProcessing s" and "distinct (map id' (files s))"
    and "results_complete en"
  shows "holds job_inv job_inv (state_of (processBatch en s))"
proof -
  let ?p = "filter is_pending (files s)"
  have dp: "distinct (map id' ?p)"
    using assms(3) by (rule distinct_map_filter)
  have "waiting ?p 0 f" if f: "f \<in> set (files s)" for f
  proof -
    have "job_inv f" using assms(1) f by (simp add: holds_def)
    moreover have "status f \<noteq> COMPLETED" if "id' f \<in> id' ` set ?p"
    proof -
      from that obtain q where q: "q \<in> set (files s)" "is_pending q" "id' q = id' f" by auto
      with assms(3) f have "q = f"
        by (metis distinct_map inj_onD)
      with q show ?thesis by (auto simp: is_pending_def)
    qed
    ultimately show ?thesis by (simp add: waiting_def)
  qed
  then have "holds (waiting ?p 0) job_inv s"
    using assms(1) by (simp add: holds_def)
  then have "ends (holds (waiting ?p (length ?p)) job_inv) (holds job_inv job_inv)
               (processBatch en s)"
    using assms(2)
  proof (rule processBatch_holds [where P = "waiting ?p"])
    show "ends (holds (waiting ?p (Suc j)) job_inv) (holds job_inv job_inv)
            (process_job en j (?p ! j) s')"
      if "j < length ?p" "holds (waiting ?p j) job_inv s'" for j s'
    proof -
      have "ends (holds (waiting ?p (Suc j)) job_inv) (holds (in_progress ?p j) job_inv)
              (process_job en j (?p ! j) s')"
        using that(2,1) dp assms(4) by (rule job_inv_job)
      then show ?thesis
      proof (rule ends_mono)
        show "holds job_inv job_inv s''" if "holds (in_progress ?p j) job_inv s''" for s''
          using that by (rule holds_weaken) (simp add: in_progress_def)
      qed
    qed
    show "job_inv f" if "waiting ?p j f" for j f
      using that by (simp add: waiting_def)
    show "waiting ?p j (new_job (formatFileSize en) q)" for j q
      by (simp add: waiting_def) (simp add: new_job_def)
  qed
  then show ?thesis
  proof (rule ends_state)
    show "holds job_inv job_inv s'" if "holds (waiting ?p (length ?p)) job_inv s'" for s'
      using that by (rule holds_weaken) (simp add: waiting_def)
  qed
qed

text \<open>
  Claim C5, amended. Let every job of the queue, and of every queue value rendered so far,
  satisfy the invariant: the four result fields are present if the job is Completed and
  absent otherwise, and the error is present if and only if the job is Failed. Then the
  same holds after files are enqueued, after a job is removed and after the queue is
  cleared. And when a run starts on a queue whose identifiers are distinct, and every
  result the inference client returns has its four fields, the invariant holds of the
  queue the run leaves and of every queue value rendered during the run, that is after
  each status transition and after each enqueue or removal the user makes meanwhile,
  whether the run returns or is left by an exception; and when it returns, each job of the
  working set that the user did not remove is in that queue, Completed or Failed, and
  satisfies the invariant.
\<close>

theorem invariant_preserved:
  assumes "holds job_inv job_inv s"
  shows "holds job_inv job_inv (handleFileChange fmt picked s) \<and>
         holds job_inv job_inv (removeFile x s) \<and>
         holds job_inv job_inv (clearAll confirmed s) \<and>
         (\<not> isProcessing s \<and> distinct (map id' (files s)) \<and> results_complete en \<longrightarrow>
            holds job_inv job_inv (state_of (processBatch en s)) \<and>
            (is_returned (processBatch en s) \<longrightarrow>
               (\<forall>j<length (working_set s). kept en (id' (working_set s ! j)) \<longrightarrow>
                  (\<exists>f\<in>set (files (state_of (processBatch en s))).
                     same_job (working_set s ! j) f \<and> job_inv f \<and>
                     (status f = COMPLETED \<or> status f = FAILED)))))"
proof (intro conjI impI allI)
  show "holds job_inv job_inv (handleFileChange fmt picked s)"
    using assms by (cases picked) (auto simp: handleFileChange_def holds_def)
  show "holds job_inv job_inv (removeFile x s)"
    using assms by (auto simp: removeFile_def holds_def)
  show "holds job_inv job_inv (clearAll confirmed s)"
    using assms by (auto simp: clearAll_def holds_def)
next
  assume h: "\<not> isProcessing s \<and> distinct (map id' (files s)) \<and> results_complete en"
  show inv: "holds job_inv job_inv (state_of (processBatch en s))"
    using assms h by (intro job_inv_run) simp_all
  show "\<exists>f\<in>set (files (state_of (processBatch en s))).
          same_job (working_set s ! j) f \<and> job_inv f \<and> (status f = COMPLETED \<or> status f = FAILED)"
    if ret: "is_returned (processBatch en s)" and j: "j < length (working_set s)"
      and k: "kept en (id' (working_set s ! j))" for j
  proof -
    have "ends (\<lambda>s'. \<exists>f\<in>set (files s'). same_job (working_set s ! j) f \<and>
                         (status f = COMPLETED \<or> status f = FAILED))
               (\<lambda>s'. \<exists>f\<in>set (files s'). same_job (working_set s ! j) f)
            (processBatch en s)"
      using h j k
    proof (intro processBatch_has)
      show "status f = COMPLETED \<or> status f = FAILED"
        if "recorded (outcome en j' (last_attempt en j')) f" for j' f
        using that by (rule recorded_terminal)
    qed simp_all
    with ret obtain f where "f \<in> set (files (state_of (processBatch en s)))"
      "same_job (working_set s ! j) f" "status f = COMPLETED \<or> status f = FAILED"
      by (cases "processBatch en s") auto
    with inv show ?thesis
      by (auto simp: holds_def)
  qed
qed

theorem invariant_preserved_witness:
  "holds job_inv job_inv one_done \<and>
   \<not> isProcessing one_done \<and> distinct (map id' (files one_done)) \<and>
   results_complete env_busy_user \<and>
   is_returned (processBatch env_busy_user one_done) \<and>
   holds job_inv job_inv (state_of (processBatch env_busy_user one_done)) \<and>
   holds job_inv job_inv
     (handleFileChange (\<lambda>b. ''2 KB'') (Some [(''d'', wav ''d.wav'')]) one_done) \<and>
   map status (files (state_of (processBatch env_busy_user one_done))) =
     [COMPLETED, COMPLETED, IDLE] \<and>
   map emotionType (files (state_of (processBatch env_busy_user one_done))) =
     [Some ''calm'', Some ''calm'', None]"
proof -
  have h: "holds job_inv job_inv one_done"
    by (simp add: holds_def one_done_def queue_of_def job_inv_def idle_job_def new_job_def
          mark_completed_def has_results_def no_results_def calm_def)
  have idle: "\<not> isProcessing one_done" by (simp add: one_done_def queue_of_def)
  have d: "distinct (map id' (files one_done))"
    by (simp add: one_done_def queue_of_def idle_job_def new_job_def mark_completed_def)
  have rc: "results_complete env_busy_user"
    by (auto simp: results_complete_def env_busy_user_def calm_def complete_def split: if_splits)
  have st: "map status (files (state_of (processBatch env_busy_user one_done))) =
              [COMPLETED, COMPLETED, IDLE]"
    "map emotionType (files (state_of (processBatch env_busy_user one_done))) =
       [Some ''calm'', Some ''calm'', None]"
    "is_returned (processBatch env_busy_user one_done)"
    by (simp_all add: run_eval env_busy_user_def one_done_def calm_def handleFileChange_def
          removeFile_def)
  from invariant_preserved [OF h, of "\<lambda>b. ''2 KB''" "Some [(''d'', wav ''d.wav'')]" _ _ env_busy_user]
    h idle d rc st
  show ?thesis by blast
qed

section \<open>C7: the fields of a Completed job\<close>

text \<open>
  Claim C7 as stated fails. \<open>analyzeAudioEmotion\<close> casts the parsed response to
  \<open>AnalysisResult\<close> and \<open>processBatch\<close> stores the four fields as they come. A response with
  the intensity 11 completes the job with the intensity 11, and the response \<open>{}\<close>
  completes it with no result field at all.
\<close>

theorem unchecked_result_completed:
  "map status (files (state_of (processBatch env_loud (queue_of [idle_job ''a'' ''a.wav''])))) =
     [COMPLETED] \<and>
   map emotionLevel (files (state_of (processBatch env_loud (queue_of [idle_job ''a'' ''a.wav''])))) =
     [Some 11] \<and>
   \<not> in_range (Some 11) \<and>
   map status (files (state_of (processBatch env_empty_object (queue_of [idle_job ''a'' ''a.wav''])))) =
     [COMPLETED] \<and>
   map emotionLevel (files (state_of (processBatch env_empty_object (queue_of [idle_job ''a'' ''a.wav''])))) =
     [None] \<and>
   map reasoning (files (state_of (processBatch env_empty_object (queue_of [idle_job ''a'' ''a.wav''])))) =
     [None]"
  by (simp add: run_eval env_loud_def loud_def env_empty_object_def empty_object_def in_range_def)

lemma completed_has_results_run:
  assumes "\<not> isProcessing s"
    and "holds completed_has_results completed_has_results s"
    and "results_complete en"
  shows "holds completed_has_results completed_has_results (state_of (processBatch en s))"
proof -
  let ?C = completed_has_results
  have "ends (holds ?C ?C) (holds ?C ?C) (processBatch en s)"
    using assms(2,1)
  proof (rule processBatch_holds [where P = "\<lambda>j. ?C"])
    show "ends (holds ?C ?C) (holds ?C ?C) (process_job en j (filter is_pending (files s) ! j) s')"
      if "holds ?C ?C s'" for j s'
      using that
    proof (rule process_job_holds [where J = ?C])
      let ?af = "filter is_pending (files s) ! j"
      show "?C (if id' f = id' ?af then mark_processing f else f)" if "?C f" for f
        using that by (simp add: completed_has_results_def mark_processing_def)
      show "?C (new_job (formatFileSize en) q)" for q
        by (simp add: completed_has_results_def new_job_def)
      show "?C (if id' f = id' ?af then mark_completed r f else f)"
        if "?C f" "outcome en j (last_attempt en j) = InferReturns r" for f r
      proof -
        have "complete r" using assms(3) that(2) by (auto simp: results_complete_def)
        then show ?thesis
          using that(1)
          by (simp add: completed_has_results_def mark_completed_def has_results_def complete_def)
      qed
      show "?C (if id' f = id' ?af then mark_failed e f else f)" if "?C f" for f e
        using that by (simp add: completed_has_results_def mark_failed_def)
    qed simp_all
    show "?C (new_job (formatFileSize en) q)" for q
      by (simp add: completed_has_results_def new_job_def)
  qed simp_all
  then show ?thesis by (rule ends_state)
qed

lemma completed_in_range_run:
  assumes "\<not> isProcessing s"
    and "holds completed_in_range completed_in_range s"
    and "levels_in_range en"
  shows "holds completed_in_range completed_in_range (state_of (processBatch en s))"
proof -
  let ?C = completed_in_range
  have "ends (holds ?C ?C) (holds ?C ?C) (processBatch en s)"
    using assms(2,1)
  proof (rule processBatch_holds [where P = "\<lambda>j. ?C"])
    show "ends (holds ?C ?C) (holds ?C ?C) (process_job en j (filter is_pending (files s) ! j) s')"
      if "holds ?C ?C s'" for j s'
      using that
    proof (rule process_job_holds [where J = ?C])
      let ?af = "filter is_pending (files s) ! j"
      show "?C (if id' f = id' ?af then mark_processing f else f)" if "?C f" for f
        using that by (simp add: completed_in_range_def mark_processing_def)
      show "?C (new_job (formatFileSize en) q)" for q
        by (simp add: completed_in_range_def new_job_def)
      show "?C (if id' f = id' ?af then mark_completed r f else f)"
        if "?C f" "outcome en j (last_attempt en j) = InferReturns r" for f r
      proof -
        have "in_range (result_emotionLevel r)"
          using assms(3) that(2) by (auto simp: levels_in_range_def)
        then show ?thesis
          using that(1) by (simp add: completed_in_range_def mark_completed_def)
      qed
      show "?C (if id' f = id' ?af then mark_failed e f else f)" if "?C f" for f e
        using that by (simp add: completed_in_range_def mark_failed_def)
    qed simp_all
    show "?C (new_job (formatFileSize en) q)" for q
      by (simp add: completed_in_range_def new_job_def)
  qed simp_all
  then show ?thesis by (rule ends_state)
qed

lemma process_job_exists:
  assumes "isProcessing s" and "id' af \<in> id' ` set (files s)" and "kept en (id' af)"
  shows "\<exists>f\<in>set (files (state_of (process_job en i af s))). id' f = id' af"
  using process_job_status [OF assms] by blast

text \<open>
  Claim C7, amended. The four result fields of a job are stored as the inference client
  returned them, without a check. When the last attempt for a job returns the result \<open>r\<close>,
  the job's loop returns, and every job of the queue with this identifier is then
  Completed with the four fields of \<open>r\<close>, present or absent as they are in \<open>r\<close>, the intensity
  whatever number it is; and there is such a job if there was one when the job was taken
  up, a run being active, and the user does not remove it. So a run that starts keeps, in
  the queue it leaves and in every queue value it renders on the way, the property that a
  Completed job has its four result fields, provided every result the inference client
  returns has the four; and it keeps the property that the intensity of a Completed job is
  an integer from 1 to 10, provided that is so of every result the inference client
  returns.
\<close>

theorem completed_fields:
  "(outcome en i (last_attempt en i) = InferReturns r \<longrightarrow>
      is_returned (process_job en i audioFile s0) \<and>
      (\<forall>f\<in>set (files (state_of (process_job en i audioFile s0))).
         id' f = id' audioFile \<longrightarrow>
           status f = COMPLETED \<and>
           emotionType f = result_emotionType r \<and> emotionLevel f = result_emotionLevel r \<and>
           voiceIdentity f = result_voiceIdentity r \<and> reasoning f = result_reasoning r) \<and>
      (isProcessing s0 \<and> id' audioFile \<in> id' ` set (files s0) \<and> kept en (id' audioFile) \<longrightarrow>
         (\<exists>f\<in>set (files (state_of (process_job en i audioFile s0))). id' f = id' audioFile))) \<and>
   (\<not> isProcessing s \<and> holds completed_has_results completed_has_results s \<and>
    results_complete en \<longrightarrow>
      holds completed_has_results completed_has_results (state_of (processBatch en s))) \<and>
   (\<not> isProcessing s \<and> holds completed_in_range completed_in_range s \<and>
    levels_in_range en \<longrightarrow>
      holds completed_in_range completed_in_range (state_of (processBatch en s)))"
proof (intro conjI impI ballI)
  assume o: "outcome en i (last_attempt en i) = InferReturns r"
  show ret: "is_returned (process_job en i audioFile s0)"
    by (simp add: process_job_returned job_rejects_eq o escapes_def)
  fix f
  assume "f \<in> set (files (state_of (process_job en i audioFile s0)))" "id' f = id' audioFile"
  with ret have rec: "recorded (outcome en i (last_attempt en i)) f"
    by (rule process_job_all_recorded)
  from rec show "status f = COMPLETED" by (simp add: o)
  from rec show "emotionType f = result_emotionType r" by (simp add: o)
  from rec show "emotionLevel f = result_emotionLevel r" by (simp add: o)
  from rec show "voiceIdentity f = result_voiceIdentity r" by (simp add: o)
  from rec show "reasoning f = result_reasoning r" by (simp add: o)
next
  show "\<exists>f\<in>set (files (state_of (process_job en i audioFile s0))). id' f = id' audioFile"
    if "isProcessing s0 \<and> id' audioFile \<in> id' ` set (files s0) \<and> kept en (id' audioFile)"
    using that by (intro process_job_exists) simp_all
  show "holds completed_has_results completed_has_results (state_of (processBatch en s))"
    if "\<not> isProcessing s \<and> holds completed_has_results completed_has_results s \<and>
        results_complete en"
    using that by (intro completed_has_results_run) simp_all
  show "holds completed_in_range completed_in_range (state_of (processBatch en s))"
    if "\<not> isProcessing s \<and> holds completed_in_range completed_in_range s \<and> levels_in_range en"
    using that by (intro completed_in_range_run) simp_all
qed

theorem completed_fields_witness:
  "outcome env_loud 0 (last_attempt env_loud 0) = InferReturns loud \<and>
   isProcessing (running [idle_job ''a'' ''a.wav'']) \<and> kept env_loud ''a'' \<and>
   map emotionLevel (files (state_of (process_job env_loud 0 (idle_job ''a'' ''a.wav'')
                                        (running [idle_job ''a'' ''a.wav''])))) = [Some 11] \<and>
   map status (files (state_of (process_job env_loud 0 (idle_job ''a'' ''a.wav'')
                                  (running [idle_job ''a'' ''a.wav''])))) = [COMPLETED] \<and>
   \<not> isProcessing three_idle \<and>
   results_complete env_second_unreadable \<and> levels_in_range env_second_unreadable \<and>
   holds completed_has_results completed_has_results three_idle \<and>
   holds completed_in_range completed_in_range three_idle \<and>
   holds completed_has_results completed_has_results
     (state_of (processBatch env_second_unreadable three_idle)) \<and>
   holds completed_in_range completed_in_range
     (state_of (processBatch env_second_unreadable three_idle)) \<and>
   map emotionLevel (files (state_of (processBatch env_second_unreadable three_idle))) =
     [Some 3, None, Some 3]"
proof -
  let ?a = "idle_job ''a'' ''a.wav''"
  let ?r = "process_job env_loud 0 ?a (running [?a])"
  have o: "outcome env_loud 0 (last_attempt env_loud 0) = InferReturns loud"
    by (simp add: env_loud_def)
  have run: "isProcessing (running [?a])" by (simp add: running_def)
  have ida: "id' ?a = ''a''" by (simp add: idle_job_def new_job_def)
  have kept: "kept env_loud ''a''" by (simp add: kept_def env_loud_def)
  have one: "length (files (state_of ?r)) = 1"
    by (simp add: run_eval env_loud_def)
  have idle: "\<not> isProcessing three_idle"
    by (simp add: three_idle_def queue_of_def)
  have h: "holds completed_has_results completed_has_results three_idle"
    "holds completed_in_range completed_in_range three_idle"
    by (simp_all add: holds_def completed_has_results_def completed_in_range_def three_idle_def
          queue_of_def idle_job_def new_job_def)
  have rc: "results_complete env_second_unreadable"
    by (auto simp: results_complete_def env_second_unreadable_def calm_def complete_def
          split: if_splits)
  have lr: "levels_in_range env_second_unreadable"
    by (auto simp: levels_in_range_def env_second_unreadable_def calm_def in_range_def
          split: if_splits)
  have lv: "map emotionLevel (files (state_of (processBatch env_second_unreadable three_idle)))
     = [Some 3, None, Some 3]"
    by (simp add: run_eval env_second_unreadable_def three_idle_def calm_def)
  note cf = completed_fields [of env_loud 0 loud ?a "running [?a]" three_idle]
  from cf o run kept
  have all: "\<forall>f\<in>set (files (state_of ?r)). id' f = id' ?a \<longrightarrow>
               status f = COMPLETED \<and> emotionLevel f = result_emotionLevel loud"
    and ex: "\<exists>f\<in>set (files (state_of ?r)). id' f = id' ?a"
    by (simp_all add: ida running_def)
  from one obtain f where f: "files (state_of ?r) = [f]"
    by (cases "files (state_of ?r)") auto
  with all ex have j: "map emotionLevel (files (state_of ?r)) = [Some 11]"
    "map status (files (state_of ?r)) = [COMPLETED]"
    by (simp_all add: loud_def)
  from completed_fields [of env_second_unreadable 0 calm ?a "running [?a]" three_idle] idle h rc lr
  have "holds completed_has_results completed_has_results
          (state_of (processBatch env_second_unreadable three_idle))"
    "holds completed_in_range completed_in_range
          (state_of (processBatch env_second_unreadable three_idle))"
    by blast+
  with o run kept j idle rc lr h lv show ?thesis by simp
qed

end
